theory Spec2Isabelle
  imports Main "HOL-Library.Word"
begin

section \<open>The accelerator runtime seen by the notebook\<close>

text \<open>
  The notebook \<^verbatim>\<open>1-kernel-optimizations.ipynb\<close> drives three device buffers
  (\<^verbatim>\<open>in1_iter\<close>, \<^verbatim>\<open>in2_iter\<close>, \<^verbatim>\<open>out_iter\<close>) through five calls of the
  PYNQ runtime: \<^verbatim>\<open>buf[i]\<close>, \<^verbatim>\<open>.sync_to_device()\<close>, \<^verbatim>\<open>.sync_from_device()\<close>,
  \<^verbatim>\<open>.call(...)\<close>, \<^verbatim>\<open>.start(...)\<close> and \<^verbatim>\<open>handle.wait()\<close>. The runtime and the
  kernel are not part of the repository; they are modelled below from the notebook's prose
  and from section 6 of the specification, as a state with a host copy and a device copy
  of every slice, the invocation that is in flight, and the list of runtime calls issued
  so far.
\<close>

type_synonym u32 = "32 word"

datatype buf = In1 | In2 | Out

text \<open>A slice \<^verbatim>\<open>buf[i]\<close> is a view: it names the buffer and the index, and shares storage.\<close>

type_synonym slice = "buf \<times> nat"

text \<open>The argument bindings of one kernel invocation: \<^verbatim>\<open>(a, b, c, count)\<close>.\<close>

datatype invocation = Invocation slice slice slice nat

datatype event =
    SyncToDevice slice
  | SyncFromDevice slice
  | Call invocation
  | Start invocation
  | Wait invocation

datatype error = InvalidArgument | IndexError | DispatchError | DeviceFault

text \<open>
  What the device reports for an invocation: success, a fault that \<^verbatim>\<open>wait\<close> hands back
  as its result, or a fault that \<^verbatim>\<open>wait\<close> raises as a Python exception.
\<close>

datatype completion = Success | FaultReturned | FaultRaised

record runtime =
  shape :: "buf \<Rightarrow> nat"
  host :: "slice \<Rightarrow> nat \<Rightarrow> u32"
  device :: "slice \<Rightarrow> nat \<Rightarrow> u32"
  running :: "invocation option"
  trace :: "event list"
  early :: "nat \<Rightarrow> bool"
  faults :: "invocation \<Rightarrow> completion"

text \<open>
  \<open>shape b\<close> is the leading dimension of buffer \<open>b\<close> (10 in the notebook);
  \<open>host s j\<close> and \<open>device s j\<close> are element \<open>j\<close> of slice \<open>s\<close> on either side;
  \<open>early k\<close> says whether the device finishes the invocation in flight before the
  host's runtime call number \<open>k\<close> (every choice of \<open>early\<close> is one interleaving of the
  kernel with the transfers); \<open>faults\<close> is the fault injected for an invocation.
\<close>

datatype 'a result = Done 'a runtime | Raised error runtime

text \<open>Sequencing of Python statements: an exception skips everything that follows.\<close>

fun and_then :: "'a result \<Rightarrow> ('a \<Rightarrow> runtime \<Rightarrow> 'b result) \<Rightarrow> 'b result" where
  "and_then (Done x st) f = f x st"
| "and_then (Raised e st) f = Raised e st"

text \<open>\<^verbatim>\<open>size = 1024*1024\<close> (cell 2), the element count passed to the kernel.\<close>

definition size_elems :: nat where
  "size_elems = 1024 * 1024"

text \<open>
  \<^verbatim>\<open>buf[i]\<close> on the leading dimension, with numpy's rule for negative indices and its
  IndexError out of range.
\<close>

definition getitem :: "buf \<Rightarrow> int \<Rightarrow> runtime \<Rightarrow> slice result" where
  "getitem b i st =
     (let n = int (shape st b); j = (if i < 0 then i + n else i)
      in if 0 \<le> j \<and> j < n then Done (b, nat j) st else Raised IndexError st)"

text \<open>
  Modelled from the spec: the kernel \<^verbatim>\<open>vadd_wide_multibanks\<close> lives in the bitstream,
  not in the repository. The notebook describes it as a vector addition of 32-bit
  elements; numpy's \<^verbatim>\<open>u4\<close> addition and the kernel both wrap modulo \<open>2^32\<close>.
  It writes the first \<open>count\<close> elements of \<open>c\<close>.
\<close>

definition vadd :: "(nat \<Rightarrow> u32) \<Rightarrow> (nat \<Rightarrow> u32) \<Rightarrow> (nat \<Rightarrow> u32) \<Rightarrow> nat \<Rightarrow> nat \<Rightarrow> u32" where
  "vadd a b c count = (\<lambda>j. if j < count then a j + b j else c j)"

text \<open>
  Modelled from the spec: the device running an invocation to its end. A faulted
  invocation is taken to write nothing (the specification leaves the buffers
  indeterminate).
\<close>

fun execute :: "invocation \<Rightarrow> runtime \<Rightarrow> runtime" where
  "execute (Invocation a b c count) st =
     (if faults st (Invocation a b c count) = Success
      then st\<lparr>device := (device st)(c := vadd (device st a) (device st b) (device st c) count),
              running := None\<rparr>
      else st\<lparr>running := None\<rparr>)"

text \<open>
  Modelled from the spec: the device runs beside the host. Before each transfer the
  invocation in flight, if any, may already have finished.
\<close>

definition progress :: "runtime \<Rightarrow> runtime" where
  "progress st =
     (case running st of
        None \<Rightarrow> st
      | Some iv \<Rightarrow> if early st (length (trace st)) then execute iv st else st)"

text \<open>
  Modelled from the spec: \<^verbatim>\<open>transfer_to_device\<close> and \<^verbatim>\<open>transfer_from_device\<close> are
  blocking copies of one slice between host and device memory.
\<close>

definition copy_to_device :: "slice \<Rightarrow> runtime \<Rightarrow> runtime" where
  "copy_to_device s st =
     st\<lparr>device := (device st)(s := host st s), trace := trace st @ [SyncToDevice s]\<rparr>"

definition copy_from_device :: "slice \<Rightarrow> runtime \<Rightarrow> runtime" where
  "copy_from_device s st =
     st\<lparr>host := (host st)(s := device st s), trace := trace st @ [SyncFromDevice s]\<rparr>"

definition sync_to_device :: "slice \<Rightarrow> runtime \<Rightarrow> unit result" where
  "sync_to_device s st = Done () (copy_to_device s (progress st))"

definition sync_from_device :: "slice \<Rightarrow> runtime \<Rightarrow> unit result" where
  "sync_from_device s st = Done () (copy_from_device s (progress st))"

text \<open>What a finished invocation hands to the host: \<open>True\<close> for success.\<close>

definition report :: "invocation \<Rightarrow> runtime \<Rightarrow> bool result" where
  "report iv st =
     (case faults st iv of
        Success \<Rightarrow> Done True st
      | FaultReturned \<Rightarrow> Done False st
      | FaultRaised \<Rightarrow> Raised DeviceFault st)"

text \<open>
  Modelled from the spec: \<^verbatim>\<open>invoke_start\<close> is non-blocking and fails with DispatchError
  when the compute unit is busy; the handle it returns carries the argument bindings.
\<close>

definition start :: "slice \<Rightarrow> slice \<Rightarrow> slice \<Rightarrow> nat \<Rightarrow> runtime \<Rightarrow> invocation result" where
  "start a b c count st =
     (let iv = Invocation a b c count; st1 = st\<lparr>trace := trace st @ [Start iv]\<rparr>
      in if running st = None then Done iv (st1\<lparr>running := Some iv\<rparr>)
         else Raised DispatchError st1)"

text \<open>Modelled from the spec: \<^verbatim>\<open>wait\<close> blocks until the invocation has completed.\<close>

definition wait :: "invocation \<Rightarrow> runtime \<Rightarrow> bool result" where
  "wait h st =
     (let st1 = (if running st = Some h then execute h st else st)
      in report h (st1\<lparr>trace := trace st1 @ [Wait h]\<rparr>))"

text \<open>Modelled from the spec: \<^verbatim>\<open>call\<close> is the synchronous invocation.\<close>

definition call :: "slice \<Rightarrow> slice \<Rightarrow> slice \<Rightarrow> nat \<Rightarrow> runtime \<Rightarrow> bool result" where
  "call a b c count st =
     (let iv = Invocation a b c count; st1 = st\<lparr>trace := trace st @ [Call iv]\<rparr>
      in if running st = None then report iv (execute iv st1)
         else Raised DispatchError st1)"

section \<open>The two loops of example 3\<close>

text \<open>\<^verbatim>\<open>for i in range(...)\<close>: the body once per index, in order, until one raises.\<close>

fun for_range :: "nat list \<Rightarrow> (nat \<Rightarrow> runtime \<Rightarrow> unit result) \<Rightarrow> runtime \<Rightarrow> unit result" where
  "for_range [] body st = Done () st"
| "for_range (i # is) body st = and_then (body i st) (\<lambda>_. for_range is body)"

text \<open>
  Cell 27, the serial loop:
  \<^verbatim>\<open>
  for i in range(10):
      in1_iter[i].sync_to_device()
      in2_iter[i].sync_to_device()
      vadd_wide_mb.call(in1_iter[i], in2_iter[i], out_iter[i], size)
      out_iter[i].sync_from_device()
  \<close>
  The literal slice count 10 is the parameter \<open>n\<close>.
\<close>

definition serial_body :: "nat \<Rightarrow> runtime \<Rightarrow> unit result" where
  "serial_body i st =
     and_then (getitem In1 (int i) st) (\<lambda>a st.
     and_then (sync_to_device a st) (\<lambda>_ st.
     and_then (getitem In2 (int i) st) (\<lambda>b st.
     and_then (sync_to_device b st) (\<lambda>_ st.
     and_then (getitem In1 (int i) st) (\<lambda>a st.
     and_then (getitem In2 (int i) st) (\<lambda>b st.
     and_then (getitem Out (int i) st) (\<lambda>c st.
     and_then (call a b c size_elems st) (\<lambda>_ st.
     and_then (getitem Out (int i) st) (\<lambda>c st.
     sync_from_device c st)))))))))"

definition run_serial :: "nat \<Rightarrow> runtime \<Rightarrow> unit result" where
  "run_serial n st = for_range [0..<n] serial_body st"

text \<open>
  Cell 33, the overlapped loop:
  \<^verbatim>\<open>
  in1_iter[0].sync_to_device()
  in2_iter[0].sync_to_device()
  for i in range(10):
      handle = vadd_wide_mb.start(in1_iter[i], in2_iter[i], out_iter[i], size)
      if i < 9:
          in1_iter[i+1].sync_to_device()
          in2_iter[i+1].sync_to_device()
      if i > 0:
          out_iter[i-1].sync_from_device()
      handle.wait()
  out_iter[9].sync_from_device()
  \<close>
  The literal 10 is \<open>n\<close> and the literal 9 is \<open>n - 1\<close>, computed on Python's integers.
  The value of \<^verbatim>\<open>handle.wait()\<close> is discarded, as in the cell.
\<close>

definition transfer_in_next :: "nat \<Rightarrow> nat \<Rightarrow> runtime \<Rightarrow> unit result" where
  "transfer_in_next n i st =
     (if int i < int n - 1
      then and_then (getitem In1 (int i + 1) st) (\<lambda>a st.
           and_then (sync_to_device a st) (\<lambda>_ st.
           and_then (getitem In2 (int i + 1) st) (\<lambda>b st.
           sync_to_device b st)))
      else Done () st)"

definition transfer_out_prev :: "nat \<Rightarrow> runtime \<Rightarrow> unit result" where
  "transfer_out_prev i st =
     (if int i > 0
      then and_then (getitem Out (int i - 1) st) (\<lambda>c st. sync_from_device c st)
      else Done () st)"

definition overlapped_body :: "nat \<Rightarrow> nat \<Rightarrow> runtime \<Rightarrow> unit result" where
  "overlapped_body n i st =
     and_then (getitem In1 (int i) st) (\<lambda>a st.
     and_then (getitem In2 (int i) st) (\<lambda>b st.
     and_then (getitem Out (int i) st) (\<lambda>c st.
     and_then (start a b c size_elems st) (\<lambda>handle st.
     and_then (transfer_in_next n i st) (\<lambda>_ st.
     and_then (transfer_out_prev i st) (\<lambda>_ st.
     and_then (wait handle st) (\<lambda>_ st. Done () st)))))))"

definition run_overlapped :: "nat \<Rightarrow> runtime \<Rightarrow> unit result" where
  "run_overlapped n st =
     and_then (getitem In1 0 st) (\<lambda>a st.
     and_then (sync_to_device a st) (\<lambda>_ st.
     and_then (getitem In2 0 st) (\<lambda>b st.
     and_then (sync_to_device b st) (\<lambda>_ st.
     and_then (for_range [0..<n] (overlapped_body n) st) (\<lambda>_ st.
     and_then (getitem Out (int n - 1) st) (\<lambda>c st.
     sync_from_device c st))))))"

text \<open>The cells as they stand in the notebook.\<close>

definition cell27 :: "runtime \<Rightarrow> unit result" where
  "cell27 = run_serial 10"

definition cell33 :: "runtime \<Rightarrow> unit result" where
  "cell33 = run_overlapped 10"

section \<open>Pipeline depth\<close>

text \<open>
  Modelled from the spec: the pipeline depth exists only in section 4.1 of the
  specification, which generalises cell 33: prime slices \<open>0..d-1\<close>; in iteration
  \<open>i\<close> start slice \<open>i\<close>, transfer in slice \<open>i + d\<close> if \<open>i + d < n\<close>, transfer out slice
  \<open>i - d\<close> if \<open>i - d \<ge> 0\<close>, wait; then drain slices \<open>n - d .. n - 1\<close>. The calls issued
  are those of cell 33, and at depth 1 the schedule is cell 33 itself.
\<close>

definition transfer_in :: "nat \<Rightarrow> runtime \<Rightarrow> unit result" where
  "transfer_in k st =
     and_then (getitem In1 (int k) st) (\<lambda>a st.
     and_then (sync_to_device a st) (\<lambda>_ st.
     and_then (getitem In2 (int k) st) (\<lambda>b st.
     sync_to_device b st)))"

definition transfer_out :: "nat \<Rightarrow> runtime \<Rightarrow> unit result" where
  "transfer_out k st =
     and_then (getitem Out (int k) st) (\<lambda>c st. sync_from_device c st)"

definition pipelined_body :: "nat \<Rightarrow> nat \<Rightarrow> nat \<Rightarrow> runtime \<Rightarrow> unit result" where
  "pipelined_body n d i st =
     and_then (getitem In1 (int i) st) (\<lambda>a st.
     and_then (getitem In2 (int i) st) (\<lambda>b st.
     and_then (getitem Out (int i) st) (\<lambda>c st.
     and_then (start a b c size_elems st) (\<lambda>handle st.
     and_then (if i + d < n then transfer_in (i + d) st else Done () st) (\<lambda>_ st.
     and_then (if d \<le> i then transfer_out (i - d) st else Done () st) (\<lambda>_ st.
     and_then (wait handle st) (\<lambda>_ st. Done () st)))))))"

definition run_pipelined :: "nat \<Rightarrow> nat \<Rightarrow> runtime \<Rightarrow> unit result" where
  "run_pipelined n d st =
     and_then (for_range [0..<d] transfer_in st) (\<lambda>_ st.
     and_then (for_range [0..<n] (pipelined_body n d) st) (\<lambda>_ st.
     for_range [n - d..<n] transfer_out st))"

section \<open>Observing a run\<close>

text \<open>
  The invocation the loops issue for slice \<open>i\<close>, and the slices an invocation is
  bound to.
\<close>

definition slice_invocation :: "nat \<Rightarrow> invocation" where
  "slice_invocation i = Invocation (In1, i) (In2, i) (Out, i) size_elems"

fun slices_of :: "invocation \<Rightarrow> slice set" where
  "slices_of (Invocation a b c count) = {a, b, c}"

text \<open>The exception a run ended with, if any, and the state it left behind.\<close>

fun outcome :: "'a result \<Rightarrow> error option" where
  "outcome (Done x st) = None"
| "outcome (Raised e st) = Some e"

fun final :: "'a result \<Rightarrow> runtime" where
  "final (Done x st) = st"
| "final (Raised e st) = st"

text \<open>The runtime calls a run issued, in order, starting from state \<open>st\<close>.\<close>

definition issued :: "runtime \<Rightarrow> 'a result \<Rightarrow> event list" where
  "issued st r = drop (length (trace st)) (trace (final r))"

text \<open>Every buffer has at least \<open>n\<close> slices and the compute unit is idle.\<close>

definition fits :: "nat \<Rightarrow> runtime \<Rightarrow> bool" where
  "fits n st \<longleftrightarrow> (\<forall>b. n \<le> shape st b) \<and> running st = None"

text \<open>No invocation on the first \<open>n\<close> slices raises; none of them faults at all.\<close>

definition quiet :: "nat \<Rightarrow> runtime \<Rightarrow> bool" where
  "quiet n st \<longleftrightarrow> (\<forall>i<n. faults st (slice_invocation i) \<noteq> FaultRaised)"

definition fault_free :: "nat \<Rightarrow> runtime \<Rightarrow> bool" where
  "fault_free n st \<longleftrightarrow> (\<forall>i<n. faults st (slice_invocation i) = Success)"

text \<open>
  Trace checkers. \<open>scan f s es\<close> runs a monitor with state \<open>s\<close> over the events and
  is \<open>None\<close> as soon as an event violates the monitored property.
\<close>

fun scan :: "('s \<Rightarrow> event \<Rightarrow> 's option) \<Rightarrow> 's \<Rightarrow> event list \<Rightarrow> 's option" where
  "scan f s [] = Some s"
| "scan f s (e # es) = (case f s e of None \<Rightarrow> None | Some s' \<Rightarrow> scan f s' es)"

text \<open>
  Exclusive ownership: the monitor holds the invocation in flight; a transfer issued
  meanwhile must not touch a slice bound to it, and no second invocation may start.
\<close>

fun exclusive_step :: "invocation option \<Rightarrow> event \<Rightarrow> invocation option option" where
  "exclusive_step r (Start iv) = (if r = None then Some (Some iv) else None)"
| "exclusive_step r (Wait iv) = Some (if r = Some iv then None else r)"
| "exclusive_step r (Call iv) = (if r = None then Some None else None)"
| "exclusive_step r (SyncToDevice s) =
     (case r of None \<Rightarrow> Some None
      | Some iv \<Rightarrow> if s \<in> slices_of iv then None else Some (Some iv))"
| "exclusive_step r (SyncFromDevice s) =
     (case r of None \<Rightarrow> Some None
      | Some iv \<Rightarrow> if s \<in> slices_of iv then None else Some (Some iv))"

text \<open>
  Single outstanding invocation: a start needs an idle unit, and the next wait must be
  on the handle that start returned.
\<close>

fun alternate_step :: "invocation option \<Rightarrow> event \<Rightarrow> invocation option option" where
  "alternate_step r (Start iv) = (if r = None then Some (Some iv) else None)"
| "alternate_step r (Wait iv) = (if r = Some iv then Some None else None)"
| "alternate_step r e = Some r"

fun is_invocation_event :: "event \<Rightarrow> bool" where
  "is_invocation_event (Start iv) = True"
| "is_invocation_event (Wait iv) = True"
| "is_invocation_event e = False"

fun is_start :: "event \<Rightarrow> bool" where
  "is_start (Start iv) = True"
| "is_start e = False"

fun is_transfer_in :: "event \<Rightarrow> bool" where
  "is_transfer_in (SyncToDevice s) = True"
| "is_transfer_in e = False"

text \<open>
  Inputs ready: the monitor holds the slices transferred to the device so far; an
  invocation may only be issued when both slices it reads are among them.
\<close>

fun ready_step :: "slice set \<Rightarrow> event \<Rightarrow> slice set option" where
  "ready_step S (SyncToDevice s) = Some (insert s S)"
| "ready_step S (Start (Invocation a b c count)) = (if a \<in> S \<and> b \<in> S then Some S else None)"
| "ready_step S (Call (Invocation a b c count)) = (if a \<in> S \<and> b \<in> S then Some S else None)"
| "ready_step S e = Some S"

text \<open>
  Outputs complete: the monitor holds the output slices whose invocation has been
  waited on (a new start on a slice takes it out again); only those may be
  transferred back.
\<close>

fun complete_step :: "slice set \<Rightarrow> event \<Rightarrow> slice set option" where
  "complete_step S (Wait (Invocation a b c count)) = Some (insert c S)"
| "complete_step S (Call (Invocation a b c count)) = Some (insert c S)"
| "complete_step S (Start (Invocation a b c count)) = Some (S - {c})"
| "complete_step S (SyncFromDevice s) = (if s \<in> S then Some S else None)"
| "complete_step S e = Some S"

text \<open>The input slices below \<open>p\<close> and the output slices below \<open>i\<close>.\<close>

definition loaded :: "nat \<Rightarrow> slice set" where
  "loaded p = Pair In1 ` {..<p} \<union> Pair In2 ` {..<p}"

definition computed :: "nat \<Rightarrow> slice set" where
  "computed i = Pair Out ` {..<i}"

text \<open>
  The state of the notebook when the loops run: three buffers of 10 slices, both
  inputs at the top of the range \<^verbatim>\<open>randint(1000)\<close> draws from, the output zeroed, and
  one of the possible interleavings of device and host.
\<close>

definition notebook_runtime :: runtime where
  "notebook_runtime =
     \<lparr>shape = (\<lambda>b. 10),
      host = (\<lambda>s j. if fst s = Out then 0 else 999),
      device = (\<lambda>s j. 0),
      running = None,
      trace = [],
      early = (\<lambda>k. even k),
      faults = (\<lambda>iv. Success)\<rparr>"

text \<open>
  The same state with a fault on slice 0 that the wait hands back, with an output
  buffer of a single slice, with a fault on slice 3 that the wait raises, and with a
  first input buffer of three slices.
\<close>

definition faulty_runtime :: runtime where
  "faulty_runtime =
     notebook_runtime\<lparr>faults := (\<lambda>iv. if iv = slice_invocation 0 then FaultReturned else Success)\<rparr>"


definition raising_runtime :: runtime where
  "raising_runtime =
     notebook_runtime\<lparr>faults := (\<lambda>iv. if iv = slice_invocation 3 then FaultRaised else Success)\<rparr>"


section \<open>Auxiliary notions for the proofs\<close>

text \<open>
  The state once the invocation in flight, if any, has run to its end; \<open>tracks\<close>
  relates a state in which \<open>iv\<close> may or may not have finished to that settled
  state.
\<close>

definition settle :: "runtime \<Rightarrow> runtime" where
  "settle st = (case running st of None \<Rightarrow> st | Some iv \<Rightarrow> execute iv st)"

definition tracks :: "invocation \<Rightarrow> runtime \<Rightarrow> runtime \<Rightarrow> bool" where
  "tracks iv st T \<longleftrightarrow> (running st = None \<or> running st = Some iv) \<and> settle st = T"

text \<open>Both input slices \<open>k\<close> copied to the device.\<close>

definition copy_in :: "nat \<Rightarrow> runtime \<Rightarrow> runtime" where
  "copy_in k st = copy_to_device (In2, k) (copy_to_device (In1, k) st)"

text \<open>
  The state after one iteration of the overlapped loop and after one iteration of the
  serial loop, written without reference to when the device finishes: the lemmas below
  show that every interleaving ends in these states.
\<close>

definition iter_result :: "nat \<Rightarrow> nat \<Rightarrow> nat \<Rightarrow> runtime \<Rightarrow> runtime" where
  "iter_result n d i st =
     (let iv = slice_invocation i;
          t1 = execute iv (st\<lparr>trace := trace st @ [Start iv]\<rparr>);
          t2 = (if i + d < n then copy_in (i + d) t1 else t1);
          t3 = (if d \<le> i then copy_from_device (Out, i - d) t2 else t2)
      in t3\<lparr>trace := trace t3 @ [Wait iv]\<rparr>)"

definition serial_result :: "nat \<Rightarrow> runtime \<Rightarrow> runtime" where
  "serial_result i st =
     (let iv = slice_invocation i; t0 = copy_in i st
      in copy_from_device (Out, i) (execute iv (t0\<lparr>trace := trace t0 @ [Call iv]\<rparr>)))"

text \<open>The end of an iteration: the wait raises or returns.\<close>

definition raise_or_done :: "invocation \<Rightarrow> runtime \<Rightarrow> unit result" where
  "raise_or_done iv st = (if faults st iv = FaultRaised then Raised DeviceFault st else Done () st)"

text \<open>
  The runtime calls of the transfers of slice \<open>k\<close>, of one iteration of either loop,
  and of a whole run.
\<close>

definition in_events :: "nat \<Rightarrow> event list" where
  "in_events k = [SyncToDevice (In1, k), SyncToDevice (In2, k)]"

definition out_events :: "nat \<Rightarrow> event list" where
  "out_events k = [SyncFromDevice (Out, k)]"

definition iter_events :: "nat \<Rightarrow> nat \<Rightarrow> nat \<Rightarrow> event list" where
  "iter_events n d i =
     [Start (slice_invocation i)]
     @ (if i + d < n then in_events (i + d) else [])
     @ (if d \<le> i then out_events (i - d) else [])
     @ [Wait (slice_invocation i)]"

definition serial_events :: "nat \<Rightarrow> event list" where
  "serial_events i = in_events i @ [Call (slice_invocation i)] @ out_events i"

definition pipelined_trace :: "nat \<Rightarrow> nat \<Rightarrow> event list" where
  "pipelined_trace n d =
     concat (map in_events [0..<d]) @ concat (map (iter_events n d) [0..<n])
     @ concat (map out_events [n - d..<n])"

definition serial_trace :: "nat \<Rightarrow> event list" where
  "serial_trace n = concat (map serial_events [0..<n])"

text \<open>
  The content of output slice \<open>k\<close> once its invocation has run from the initial state
  \<open>st0\<close>; \<open>stage st0 p i m evs st\<close> describes \<open>st\<close> completely: the calls \<open>evs\<close> have
  been issued, input slices below \<open>p\<close> are on the device, output slices below \<open>i\<close>
  are computed there, and output slices below \<open>m\<close> are back on the host.
\<close>

definition expected :: "runtime \<Rightarrow> nat \<Rightarrow> nat \<Rightarrow> u32" where
  "expected st0 k =
     (if faults st0 (slice_invocation k) = Success
      then vadd (host st0 (In1, k)) (host st0 (In2, k)) (device st0 (Out, k)) size_elems
      else device st0 (Out, k))"

definition stage :: "runtime \<Rightarrow> nat \<Rightarrow> nat \<Rightarrow> nat \<Rightarrow> event list \<Rightarrow> runtime \<Rightarrow> bool" where
  "stage st0 p i m evs st \<longleftrightarrow>
     running st = None \<and> shape st = shape st0 \<and> early st = early st0 \<and> faults st = faults st0
     \<and> trace st = trace st0 @ evs
     \<and> (\<forall>k. host st (In1, k) = host st0 (In1, k))
     \<and> (\<forall>k. host st (In2, k) = host st0 (In2, k))
     \<and> (\<forall>k. host st (Out, k) = (if k < m then expected st0 k else host st0 (Out, k)))
     \<and> (\<forall>k. device st (In1, k) = (if k < p then host st0 (In1, k) else device st0 (In1, k)))
     \<and> (\<forall>k. device st (In2, k) = (if k < p then host st0 (In2, k) else device st0 (In2, k)))
     \<and> (\<forall>k. device st (Out, k) = (if k < i then expected st0 k else device st0 (Out, k)))"

section \<open>Properties of the runtime calls\<close>

subsection \<open>Fields of the state after a runtime call\<close>

lemma getitem_nat: "k < shape st b \<Longrightarrow> getitem b (int k) st = Done (b, k) st"
  by (simp add: getitem_def Let_def)

lemma execute_fields [simp]:
  "shape (execute iv st) = shape st" "early (execute iv st) = early st"
  "faults (execute iv st) = faults st" "host (execute iv st) = host st"
  "trace (execute iv st) = trace st" "running (execute iv st) = None"
  by (cases iv; simp)+

lemma progress_fields [simp]:
  "shape (progress st) = shape st" "early (progress st) = early st"
  "faults (progress st) = faults st" "host (progress st) = host st"
  "trace (progress st) = trace st"
  by (simp_all add: progress_def split: option.splits)

lemma settle_fields [simp]:
  "shape (settle st) = shape st" "early (settle st) = early st"
  "faults (settle st) = faults st" "host (settle st) = host st"
  "trace (settle st) = trace st" "running (settle st) = None"
  by (simp_all add: settle_def split: option.splits)

lemma settle_idle [simp]: "running st = None \<Longrightarrow> settle st = st"
  by (simp add: settle_def)

lemma progress_idle [simp]: "running st = None \<Longrightarrow> progress st = st"
  by (simp add: progress_def)

lemma settle_progress [simp]: "settle (progress st) = settle st"
  by (cases "running st") (simp_all add: progress_def settle_def)

lemma running_progress: "running (progress st) = None \<or> running (progress st) = running st"
  by (cases "running st") (simp_all add: progress_def)

lemma copy_fields [simp]:
  "shape (copy_to_device s st) = shape st" "early (copy_to_device s st) = early st"
  "faults (copy_to_device s st) = faults st" "host (copy_to_device s st) = host st"
  "running (copy_to_device s st) = running st"
  "trace (copy_to_device s st) = trace st @ [SyncToDevice s]"
  "shape (copy_from_device s st) = shape st" "early (copy_from_device s st) = early st"
  "faults (copy_from_device s st) = faults st" "device (copy_from_device s st) = device st"
  "running (copy_from_device s st) = running st"
  "trace (copy_from_device s st) = trace st @ [SyncFromDevice s]"
  by (simp_all add: copy_to_device_def copy_from_device_def)

subsection \<open>Transfers commute with the invocation in flight\<close>

text \<open>
  A transfer of a slice that is not bound to the invocation in flight leaves the same
  settled state whether the device finishes before or after it. This is where the
  choice of slices in cell 33 matters.
\<close>

lemma execute_copy_to:
  "s \<notin> slices_of iv \<Longrightarrow> execute iv (copy_to_device s st) = copy_to_device s (execute iv st)"
  by (cases iv) (auto simp: copy_to_device_def fun_upd_twist)

lemma execute_copy_from:
  "s \<notin> slices_of iv \<Longrightarrow> execute iv (copy_from_device s st) = copy_from_device s (execute iv st)"
  by (cases iv) (auto simp: copy_from_device_def)

lemma settle_copy_to:
  "running st = None \<or> running st = Some iv \<Longrightarrow> s \<notin> slices_of iv \<Longrightarrow>
   settle (copy_to_device s st) = copy_to_device s (settle st)"
  by (auto simp: settle_def execute_copy_to)

lemma settle_copy_from:
  "running st = None \<or> running st = Some iv \<Longrightarrow> s \<notin> slices_of iv \<Longrightarrow>
   settle (copy_from_device s st) = copy_from_device s (settle st)"
  by (auto simp: settle_def execute_copy_from)

lemma tracks_progress: "tracks iv st T \<Longrightarrow> tracks iv (progress st) T"
  using running_progress [of st] by (auto simp: tracks_def)

lemma sync_to_device_tracks:
  assumes "tracks iv st T" "s \<notin> slices_of iv"
  shows "\<exists>st'. sync_to_device s st = Done () st' \<and> tracks iv st' (copy_to_device s T)"
proof -
  from assms(1) have p: "tracks iv (progress st) T" by (rule tracks_progress)
  then have r: "running (progress st) = None \<or> running (progress st) = Some iv"
    and T: "settle st = T" by (simp_all add: tracks_def)
  have "settle (copy_to_device s (progress st)) = copy_to_device s (settle (progress st))"
    using r assms(2) by (rule settle_copy_to)
  with r T show ?thesis by (simp add: sync_to_device_def tracks_def)
qed

lemma sync_from_device_tracks:
  assumes "tracks iv st T" "s \<notin> slices_of iv"
  shows "\<exists>st'. sync_from_device s st = Done () st' \<and> tracks iv st' (copy_from_device s T)"
proof -
  from assms(1) have p: "tracks iv (progress st) T" by (rule tracks_progress)
  then have r: "running (progress st) = None \<or> running (progress st) = Some iv"
    and T: "settle st = T" by (simp_all add: tracks_def)
  have "settle (copy_from_device s (progress st)) = copy_from_device s (settle (progress st))"
    using r assms(2) by (rule settle_copy_from)
  with r T show ?thesis by (simp add: sync_from_device_def tracks_def)
qed

lemma getitem_tracks:
  "tracks iv st T \<Longrightarrow> k < shape T b \<Longrightarrow> getitem b (int k) st = Done (b, k) st"
  by (auto simp: tracks_def intro: getitem_nat)

lemma transfer_in_tracks:
  assumes "tracks iv st T" "(In1, k) \<notin> slices_of iv" "(In2, k) \<notin> slices_of iv"
    "k < shape T In1" "k < shape T In2"
  shows "\<exists>st'. transfer_in k st = Done () st' \<and> tracks iv st' (copy_in k T)"
proof -
  from sync_to_device_tracks [OF assms(1,2)] obtain st1 where
    1: "sync_to_device (In1, k) st = Done () st1" and t1: "tracks iv st1 (copy_to_device (In1, k) T)"
    by blast
  from sync_to_device_tracks [OF t1 assms(3)] obtain st2 where
    2: "sync_to_device (In2, k) st1 = Done () st2" and t2: "tracks iv st2 (copy_in k T)"
    by (auto simp: copy_in_def)
  have g1: "getitem In1 (int k) st = Done (In1, k) st"
    using assms(1,4) by (rule getitem_tracks)
  have g2: "getitem In2 (int k) st1 = Done (In2, k) st1"
    using assms(5) by (intro getitem_tracks [OF t1]) simp
  show ?thesis using 1 2 t2 g1 g2 by (simp add: transfer_in_def)
qed

lemma transfer_out_tracks:
  assumes "tracks iv st T" "(Out, k) \<notin> slices_of iv" "k < shape T Out"
  shows "\<exists>st'. transfer_out k st = Done () st' \<and> tracks iv st' (copy_from_device (Out, k) T)"
proof -
  from sync_from_device_tracks [OF assms(1,2)] obtain st1 where
    1: "sync_from_device (Out, k) st = Done () st1" and t1: "tracks iv st1 (copy_from_device (Out, k) T)"
    by blast
  have g1: "getitem Out (int k) st = Done (Out, k) st"
    using assms(1,3) by (rule getitem_tracks)
  show ?thesis using 1 t1 g1 by (simp add: transfer_out_def)
qed

lemma wait_tracks:
  "tracks iv st T \<Longrightarrow> wait iv st = report iv (T\<lparr>trace := trace T @ [Wait iv]\<rparr>)"
  by (auto simp: tracks_def wait_def Let_def settle_def)

lemma start_tracks:
  assumes "running st = None"
  shows "\<exists>st'. start a b c k st = Done (Invocation a b c k) st'
           \<and> tracks (Invocation a b c k) st'
                (execute (Invocation a b c k) (st\<lparr>trace := trace st @ [Start (Invocation a b c k)]\<rparr>))"
  using assms by (simp add: start_def Let_def tracks_def settle_def)

subsection \<open>Loops\<close>

lemma for_range_append:
  "for_range (xs @ ys) body st = and_then (for_range xs body st) (\<lambda>_. for_range ys body)"
proof (induction xs arbitrary: st)
  case Nil
  show ?case by simp
next
  case (Cons i xs)
  show ?case
  proof (cases "body i st")
    case (Done u st1)
    with Cons show ?thesis by simp
  next
    case (Raised e st1)
    then show ?thesis by simp
  qed
qed

lemma for_range_upto:
  assumes step: "\<And>i st. a \<le> i \<Longrightarrow> i < b \<Longrightarrow> I i st \<Longrightarrow> \<exists>st'. body i st = Done () st' \<and> I (Suc i) st'"
  shows "a \<le> m \<Longrightarrow> m \<le> b \<Longrightarrow> I a st \<Longrightarrow> \<exists>st'. for_range [a..<m] body st = Done () st' \<and> I m st'"
proof (induction m)
  case 0
  then show ?case by simp
next
  case (Suc m)
  show ?case
  proof (cases "a = Suc m")
    case True
    with Suc.prems show ?thesis by simp
  next
    case False
    with Suc.prems have am: "a \<le> m" and mb: "m < b" by simp_all
    from Suc.IH am mb Suc.prems(3) obtain st1 where
      1: "for_range [a..<m] body st = Done () st1" and 2: "I m st1"
      by auto
    from step [OF am mb 2] obtain st2 where
      3: "body m st1 = Done () st2" and 4: "I (Suc m) st2"
      by auto
    from am have "[a..<Suc m] = [a..<m] @ [m]" by simp
    with 1 3 4 show ?thesis by (simp add: for_range_append)
  qed
qed

lemma for_range_rule:
  assumes "\<And>i st. a \<le> i \<Longrightarrow> i < b \<Longrightarrow> I i st \<Longrightarrow> \<exists>st'. body i st = Done () st' \<and> I (Suc i) st'"
    and "a \<le> b" and "I a st"
  shows "\<exists>st'. for_range [a..<b] body st = Done () st' \<and> I b st'"
  using for_range_upto [of a b I body b st] assms by blast

subsection \<open>One iteration, for every interleaving\<close>

lemma report_raise_or_done:
  "and_then (report iv st) (\<lambda>_ st. Done () st) = raise_or_done iv st"
  by (simp add: report_def raise_or_done_def split: completion.splits)

lemma pipelined_body_result:
  assumes "i < n" "0 < d" "\<forall>b. n \<le> shape st b" "running st = None"
  shows "pipelined_body n d i st = raise_or_done (slice_invocation i) (iter_result n d i st)"
proof -
  let ?iv = "slice_invocation i"
  let ?t1 = "execute ?iv (st\<lparr>trace := trace st @ [Start ?iv]\<rparr>)"
  let ?t2 = "if i + d < n then copy_in (i + d) ?t1 else ?t1"
  let ?t3 = "if d \<le> i then copy_from_device (Out, i - d) ?t2 else ?t2"
  have sh: "\<And>b k. k < n \<Longrightarrow> k < shape st b"
    using assms(3) by (meson less_le_trans)
  have g: "\<And>b. getitem b (int i) st = Done (b, i) st"
    using assms(1) sh by (simp add: getitem_nat)
  from start_tracks [OF assms(4), of "(In1, i)" "(In2, i)" "(Out, i)" size_elems]
  obtain st1 where s1: "start (In1, i) (In2, i) (Out, i) size_elems st = Done ?iv st1"
    and t1: "tracks ?iv st1 ?t1"
    by (auto simp: slice_invocation_def)
  have "\<exists>st2. (if i + d < n then transfer_in (i + d) st1 else Done () st1) = Done () st2
          \<and> tracks ?iv st2 ?t2"
  proof (cases "i + d < n")
    case True
    with assms(2) sh show ?thesis
      using transfer_in_tracks [OF t1, of "i + d"] by (simp add: slice_invocation_def)
  next
    case False
    with t1 show ?thesis by simp
  qed
  then obtain st2 where
    s2: "(if i + d < n then transfer_in (i + d) st1 else Done () st1) = Done () st2"
    and t2: "tracks ?iv st2 ?t2" by blast
  have "\<exists>st3. (if d \<le> i then transfer_out (i - d) st2 else Done () st2) = Done () st3
          \<and> tracks ?iv st3 ?t3"
  proof (cases "d \<le> i")
    case True
    with assms(1,2) sh [of "i - d"] show ?thesis
      using transfer_out_tracks [OF t2, of "i - d"] by (simp add: slice_invocation_def copy_in_def)
  next
    case False
    with t2 show ?thesis by simp
  qed
  then obtain st3 where
    s3: "(if d \<le> i then transfer_out (i - d) st2 else Done () st2) = Done () st3"
    and t3: "tracks ?iv st3 ?t3" by blast
  have w: "wait ?iv st3 = report ?iv (?t3\<lparr>trace := trace ?t3 @ [Wait ?iv]\<rparr>)"
    using t3 by (rule wait_tracks)
  have "pipelined_body n d i st = and_then (wait ?iv st3) (\<lambda>_ st. Done () st)"
    unfolding pipelined_body_def by (simp only: g and_then.simps s1 s2 s3)
  then show ?thesis
    by (simp only: w report_raise_or_done iter_result_def Let_def)
qed

lemma device_execute:
  "device (execute (Invocation a b c k) st) =
     (if faults st (Invocation a b c k) = Success
      then (device st)(c := vadd (device st a) (device st b) (device st c) k)
      else device st)"
  by simp

lemma device_copy_to [simp]:
  "device (copy_to_device s st) = (device st)(s := host st s)"
  by (simp add: copy_to_device_def)

lemma host_copy_from [simp]:
  "host (copy_from_device s st) = (host st)(s := device st s)"
  by (simp add: copy_from_device_def)

lemma iter_result_env [simp]:
  "shape (iter_result n d i st) = shape st" "early (iter_result n d i st) = early st"
  "faults (iter_result n d i st) = faults st" "running (iter_result n d i st) = None"
  by (simp_all add: iter_result_def Let_def copy_in_def)

lemma iter_result_trace [simp]:
  "trace (iter_result n d i st) = trace st @ iter_events n d i"
  by (simp add: iter_result_def Let_def copy_in_def iter_events_def in_events_def out_events_def)

lemma iter_result_host:
  "0 < d \<Longrightarrow> host (iter_result n d i st) =
     (if d \<le> i then (host st)((Out, i - d) := device st (Out, i - d)) else host st)"
  by (auto simp: iter_result_def Let_def copy_in_def slice_invocation_def)

lemma iter_result_device:
  "0 < d \<Longrightarrow> device (iter_result n d i st) s =
     (if s = (Out, i) then
        (if faults st (slice_invocation i) = Success
         then vadd (device st (In1, i)) (device st (In2, i)) (device st (Out, i)) size_elems
         else device st (Out, i))
      else if i + d < n \<and> (s = (In1, i + d) \<or> s = (In2, i + d)) then host st s
      else device st s)"
  by (auto simp: iter_result_def Let_def copy_in_def slice_invocation_def)

lemma stage_iter:
  assumes "stage st0 (min (i + d) n) i (i - d) evs st" "0 < d" "i < n"
  shows "stage st0 (min (Suc i + d) n) (Suc i) (Suc i - d) (evs @ iter_events n d i)
           (iter_result n d i st)"
  using assms
  unfolding stage_def
  apply (simp add: iter_result_host iter_result_device)
  apply (auto simp: expected_def)
  done

lemma sync_to_device_idle:
  "running st = None \<Longrightarrow> sync_to_device s st = Done () (copy_to_device s st)"
  by (simp add: sync_to_device_def)

lemma sync_from_device_idle:
  "running st = None \<Longrightarrow> sync_from_device s st = Done () (copy_from_device s st)"
  by (simp add: sync_from_device_def)

lemma transfer_in_idle:
  "running st = None \<Longrightarrow> k < shape st In1 \<Longrightarrow> k < shape st In2 \<Longrightarrow>
   transfer_in k st = Done () (copy_in k st)"
  by (simp add: transfer_in_def getitem_nat sync_to_device_idle copy_in_def)

lemma transfer_out_idle:
  "running st = None \<Longrightarrow> k < shape st Out \<Longrightarrow>
   transfer_out k st = Done () (copy_from_device (Out, k) st)"
  by (simp add: transfer_out_def getitem_nat sync_from_device_idle)

lemma copy_in_fields [simp]:
  "shape (copy_in k st) = shape st" "early (copy_in k st) = early st"
  "faults (copy_in k st) = faults st" "host (copy_in k st) = host st"
  "running (copy_in k st) = running st"
  "trace (copy_in k st) = trace st @ in_events k"
  "device (copy_in k st) = (device st)((In1, k) := host st (In1, k), (In2, k) := host st (In2, k))"
  by (simp_all add: copy_in_def in_events_def)

lemma stage_prime:
  assumes "stage st0 p 0 0 evs st"
  shows "stage st0 (Suc p) 0 0 (evs @ in_events p) (copy_in p st)"
  using assms unfolding stage_def by auto

lemma stage_drain:
  assumes "stage st0 p i m evs st" "m < i"
  shows "stage st0 p i (Suc m) (evs @ out_events m) (copy_from_device (Out, m) st)"
  using assms unfolding stage_def by (auto simp: out_events_def)

lemma stage_start: "running st = None \<Longrightarrow> stage st 0 0 0 [] st"
  by (simp add: stage_def)

lemma serial_body_result:
  assumes "i < n" "\<forall>b. n \<le> shape st b" "running st = None"
    "faults st (slice_invocation i) \<noteq> FaultRaised"
  shows "serial_body i st = Done () (serial_result i st)"
proof -
  have sh: "\<And>b. i < shape st b"
    using assms(1,2) by (meson less_le_trans)
  have c: "call (In1, i) (In2, i) (Out, i) size_elems (copy_in i st)
             = report (slice_invocation i)
                 (execute (slice_invocation i)
                    (copy_in i st\<lparr>trace := trace (copy_in i st) @ [Call (slice_invocation i)]\<rparr>))"
    using assms(3) by (simp add: call_def Let_def slice_invocation_def)
  show ?thesis
    using assms(3,4) sh
    apply (simp add: serial_body_def getitem_nat sync_to_device_idle copy_in_def [symmetric] c)
    apply (simp add: report_def serial_result_def Let_def sync_from_device_idle getitem_nat
        split: completion.splits)
    done
qed

lemma serial_result_fields [simp]:
  "shape (serial_result i st) = shape st" "early (serial_result i st) = early st"
  "faults (serial_result i st) = faults st" "running (serial_result i st) = None"
  "trace (serial_result i st) = trace st @ serial_events i"
  by (simp_all add: serial_result_def Let_def serial_events_def out_events_def)

lemma stage_serial:
  assumes "stage st0 i i i evs st"
  shows "stage st0 (Suc i) (Suc i) (Suc i) (evs @ serial_events i) (serial_result i st)"
  using assms unfolding stage_def
  apply (simp add: serial_result_def Let_def device_execute slice_invocation_def serial_events_def out_events_def
      del: execute.simps)
  apply (auto simp: expected_def slice_invocation_def less_Suc_eq)
  done

subsection \<open>Whole runs\<close>

lemma run_serial_stage:
  assumes sh: "\<forall>b. n \<le> shape st b" and idle: "running st = None"
    and ok: "\<forall>i<n. faults st (slice_invocation i) \<noteq> FaultRaised"
  shows "\<exists>st'. run_serial n st = Done () st' \<and> stage st n n n (serial_trace n) st'"
proof -
  let ?I = "\<lambda>i s. stage st i i i (concat (map serial_events [0..<i])) s"
  have step: "\<exists>s'. serial_body i s = Done () s' \<and> ?I (Suc i) s'" if "i < n" "?I i s" for i s
  proof -
    from that(2) have "shape s = shape st" "running s = None" "faults s = faults st"
      by (simp_all add: stage_def)
    with that(1) sh ok have "serial_body i s = Done () (serial_result i s)"
      by (intro serial_body_result [of i n]) simp_all
    moreover have "?I (Suc i) (serial_result i s)"
      using stage_serial [OF that(2)] by simp
    ultimately show ?thesis by blast
  qed
  have "?I 0 st" using idle by (simp add: stage_start)
  with step have "\<exists>st'. for_range [0..<n] serial_body st = Done () st' \<and> ?I n st'"
    by (intro for_range_rule [of 0 n ?I]) simp_all
  then show ?thesis by (simp add: run_serial_def serial_trace_def)
qed

lemma run_pipelined_stage:
  assumes d: "0 < d" "d \<le> n"
    and sh: "\<forall>b. n \<le> shape st b" and idle: "running st = None"
    and ok: "\<forall>i<n. faults st (slice_invocation i) \<noteq> FaultRaised"
  shows "\<exists>st'. run_pipelined n d st = Done () st' \<and> stage st n n n (pipelined_trace n d) st'"
proof -
  let ?pre = "concat (map in_events [0..<d])"
  let ?mid = "concat (map (iter_events n d) [0..<n])"
  let ?P = "\<lambda>p s. stage st p 0 0 (concat (map in_events [0..<p])) s"
  let ?L = "\<lambda>i s. stage st (min (i + d) n) i (i - d) (?pre @ concat (map (iter_events n d) [0..<i])) s"
  let ?D = "\<lambda>m s. stage st n n m (?pre @ ?mid @ concat (map out_events [n - d..<m])) s"
  have pstep: "\<exists>s'. transfer_in p s = Done () s' \<and> ?P (Suc p) s'" if "p < d" "?P p s" for p s
  proof -
    from that(2) have "shape s = shape st" "running s = None"
      by (simp_all add: stage_def)
    with that(1) d sh have "transfer_in p s = Done () (copy_in p s)"
      by (intro transfer_in_idle) (auto intro: less_le_trans)
    moreover have "?P (Suc p) (copy_in p s)"
      using stage_prime [OF that(2)] by simp
    ultimately show ?thesis by blast
  qed
  have "?P 0 st" using idle by (simp add: stage_start)
  with pstep have "\<exists>s1. for_range [0..<d] transfer_in st = Done () s1 \<and> ?P d s1"
    by (intro for_range_rule [of 0 d ?P]) simp_all
  then obtain s1 where 1: "for_range [0..<d] transfer_in st = Done () s1" and p1: "?P d s1"
    by blast
  have lstep: "\<exists>s'. pipelined_body n d i s = Done () s' \<and> ?L (Suc i) s'" if "i < n" "?L i s" for i s
  proof -
    from that(2) have "shape s = shape st" "running s = None" "faults s = faults st"
      by (simp_all add: stage_def)
    with that(1) d sh ok have "pipelined_body n d i s = Done () (iter_result n d i s)"
      by (simp add: pipelined_body_result raise_or_done_def)
    moreover have "?L (Suc i) (iter_result n d i s)"
      using stage_iter [OF that(2) d(1) that(1)] by simp
    ultimately show ?thesis by blast
  qed
  from p1 d have "?L 0 s1" by (simp add: min_absorb1)
  with lstep have "\<exists>s2. for_range [0..<n] (pipelined_body n d) s1 = Done () s2 \<and> ?L n s2"
    by (intro for_range_rule [of 0 n ?L]) simp_all
  then obtain s2 where 2: "for_range [0..<n] (pipelined_body n d) s1 = Done () s2" and p2: "?L n s2"
    by blast
  have dstep: "\<exists>s'. transfer_out m s = Done () s' \<and> ?D (Suc m) s'" if "n - d \<le> m" "m < n" "?D m s" for m s
  proof -
    from that(3) have "shape s = shape st" "running s = None"
      by (simp_all add: stage_def)
    with that(2) sh have "transfer_out m s = Done () (copy_from_device (Out, m) s)"
      by (intro transfer_out_idle) (auto intro: less_le_trans)
    moreover have "?D (Suc m) (copy_from_device (Out, m) s)"
      using stage_drain [OF that(3) that(2)] that(1) by simp
    ultimately show ?thesis by blast
  qed
  from p2 have "?D (n - d) s2" by simp
  with dstep have "\<exists>s3. for_range [n - d..<n] transfer_out s2 = Done () s3 \<and> ?D n s3"
    by (intro for_range_rule [of "n - d" n ?D]) simp_all
  then obtain s3 where 3: "for_range [n - d..<n] transfer_out s2 = Done () s3" and p3: "?D n s3"
    by blast
  from 1 2 3 p3 show ?thesis
    by (simp add: run_pipelined_def pipelined_trace_def)
qed

subsection \<open>Cell 33 is the schedule at depth 1\<close>

lemma transfer_in_next_eq:
  "transfer_in_next n i st = (if i + 1 < n then transfer_in (i + 1) st else Done () st)"
proof -
  have "int i + 1 = int (i + 1)" by simp
  moreover have "int i < int n - 1 \<longleftrightarrow> i + 1 < n" by linarith
  ultimately show ?thesis
    unfolding transfer_in_next_def transfer_in_def by (simp only:)
qed

lemma transfer_out_prev_eq:
  "transfer_out_prev i st = (if 1 \<le> i then transfer_out (i - 1) st else Done () st)"
proof (cases "1 \<le> i")
  case True
  then have "int (i - 1) = int i - 1" by simp
  then have "getitem Out (int (i - 1)) st = getitem Out (int i - 1) st" by (simp only:)
  with True show ?thesis
    by (simp add: transfer_out_prev_def transfer_out_def del: of_nat_diff)
next
  case False
  then show ?thesis by (simp add: transfer_out_prev_def)
qed

lemma overlapped_body_depth_one: "overlapped_body n i st = pipelined_body n 1 i st"
  unfolding overlapped_body_def pipelined_body_def
  by (simp only: transfer_in_next_eq transfer_out_prev_eq)

lemma for_range_cong:
  "(\<And>i st. body i st = body' i st) \<Longrightarrow> for_range xs body st = for_range xs body' st"
proof (induction xs arbitrary: st)
  case Nil
  show ?case by simp
next
  case (Cons i xs)
  then have "for_range xs body = for_range xs body'" by blast
  with Cons.prems show ?case by simp
qed

lemma and_then_assoc:
  "and_then (and_then r f) g = and_then r (\<lambda>x st. and_then (f x st) g)"
  by (cases r) simp_all

lemma and_then_Done [simp]: "and_then r Done = r"
  by (cases r) simp_all

lemma for_range_single [simp]: "for_range [k] body st = body k st"
proof -
  have "(\<lambda>_::unit. for_range [] body) = Done" by (simp add: fun_eq_iff)
  then show ?thesis by simp
qed

lemma run_overlapped_depth_one:
  assumes "1 \<le> n"
  shows "run_overlapped n st = run_pipelined n 1 st"
proof -
  from assms have i: "int n - 1 = int (n - 1)" by simp
  have "[n - 1..<Suc (n - 1)] = [n - 1]" by simp
  with assms have r: "[n - 1..<n] = [n - 1]" by simp
  have z: "[0..<1] = [0::nat]" by simp
  have b: "for_range [0..<n] (overlapped_body n) = for_range [0..<n] (pipelined_body n 1)"
    by (intro ext for_range_cong overlapped_body_depth_one)
  show ?thesis
    unfolding run_overlapped_def run_pipelined_def b i r z for_range_single
    unfolding transfer_in_def transfer_out_def and_then_assoc
    by simp
qed

subsection \<open>Runs observed through their outcome and final state\<close>

lemma run_serial_facts:
  assumes "fits n st" "quiet n st"
  shows "outcome (run_serial n st) = None \<and> stage st n n n (serial_trace n) (final (run_serial n st))"
proof -
  from assms obtain st' where "run_serial n st = Done () st'" "stage st n n n (serial_trace n) st'"
    using run_serial_stage [of n st] by (auto simp: fits_def quiet_def)
  then show ?thesis by simp
qed

lemma run_pipelined_facts:
  assumes "0 < d" "d \<le> n" "fits n st" "quiet n st"
  shows "outcome (run_pipelined n d st) = None
       \<and> stage st n n n (pipelined_trace n d) (final (run_pipelined n d st))"
proof -
  from assms obtain st' where
    "run_pipelined n d st = Done () st'" "stage st n n n (pipelined_trace n d) st'"
    using run_pipelined_stage [of d n st] by (auto simp: fits_def quiet_def)
  then show ?thesis by simp
qed

lemma issued_stage: "stage st p i m evs (final r) \<Longrightarrow> issued st r = evs"
  by (simp add: issued_def stage_def)

lemma serial_trace_explicit:
  "serial_trace n =
     concat (map (\<lambda>i. [SyncToDevice (In1, i), SyncToDevice (In2, i),
                        Call (Invocation (In1, i) (In2, i) (Out, i) size_elems),
                        SyncFromDevice (Out, i)]) [0..<n])"
proof -
  have "serial_events = (\<lambda>i. [SyncToDevice (In1, i), SyncToDevice (In2, i),
                        Call (Invocation (In1, i) (In2, i) (Out, i) size_elems),
                        SyncFromDevice (Out, i)])"
    by (simp add: fun_eq_iff serial_events_def in_events_def out_events_def slice_invocation_def)
  then show ?thesis by (simp add: serial_trace_def)
qed

lemma length_serial_trace: "length (serial_trace n) = 4 * n"
  by (induction n)
     (simp_all add: serial_trace_def serial_events_def in_events_def out_events_def)

lemma notebook_fits: "fits 10 notebook_runtime"
  by (simp add: fits_def notebook_runtime_def)

lemma notebook_fault_free: "fault_free 10 notebook_runtime"
  by (simp add: fault_free_def notebook_runtime_def)

lemma notebook_quiet: "quiet 10 notebook_runtime"
  by (simp add: quiet_def notebook_runtime_def)

lemma stage_host_eq:
  assumes "stage st p i m e1 s1" "stage st p' i' m e2 s2"
  shows "host s1 = host s2"
proof
  fix s :: slice
  obtain b k where s: "s = (b, k)" by (cases s)
  show "host s1 s = host s2 s"
    using assms unfolding s stage_def by (cases b) simp_all
qed

lemma stage_host_out:
  assumes "stage st p i m evs s" "k < m" "faults st (slice_invocation k) = Success" "j < size_elems"
  shows "host s (Out, k) j = host st (In1, k) j + host st (In2, k) j"
  using assms by (simp add: stage_def expected_def vadd_def)

lemma run_overlapped_facts:
  assumes "1 \<le> n" "fits n st" "quiet n st"
  shows "outcome (run_overlapped n st) = None
       \<and> stage st n n n (pipelined_trace n 1) (final (run_overlapped n st))"
  using run_pipelined_facts [of 1 n st] assms by (simp add: run_overlapped_depth_one)

lemma fault_free_quiet: "fault_free n st \<Longrightarrow> quiet n st"
  by (simp add: fault_free_def quiet_def)

lemma unat_add_small:
  fixes x y :: u32
  assumes "unat x < 1000" "unat y < 1000"
  shows "unat (x + y) = unat x + unat y"
proof -
  have "unat x + unat y < 2 ^ LENGTH(32)" using assms by simp
  then show ?thesis by (rule iffD1 [OF unat_add_lem])
qed

subsection \<open>Monitors over the issued calls\<close>

lemma scan_append:
  "scan f s (xs @ ys) = (case scan f s xs of None \<Rightarrow> None | Some s' \<Rightarrow> scan f s' ys)"
  by (induction xs arbitrary: s) (auto split: option.splits)

lemma scan_upto:
  assumes step: "\<And>i s. a \<le> i \<Longrightarrow> i < b \<Longrightarrow> I i s \<Longrightarrow> \<exists>s'. scan f s (g i) = Some s' \<and> I (Suc i) s'"
  shows "a \<le> m \<Longrightarrow> m \<le> b \<Longrightarrow> I a s \<Longrightarrow>
         \<exists>s'. scan f s (concat (map g [a..<m])) = Some s' \<and> I m s'"
proof (induction m)
  case 0
  then show ?case by simp
next
  case (Suc m)
  show ?case
  proof (cases "a = Suc m")
    case True
    with Suc.prems show ?thesis by simp
  next
    case False
    with Suc.prems have am: "a \<le> m" and mb: "m < b" by simp_all
    from Suc.IH am mb Suc.prems(3) obtain s1 where
      1: "scan f s (concat (map g [a..<m])) = Some s1" and 2: "I m s1"
      by auto
    from step [OF am mb 2] obtain s2 where
      3: "scan f s1 (g m) = Some s2" and 4: "I (Suc m) s2"
      by auto
    from am have "[a..<Suc m] = [a..<m] @ [m]" by simp
    with 1 3 4 show ?thesis by (simp add: scan_append)
  qed
qed

lemma scan_concat_rule:
  assumes "\<And>i s. a \<le> i \<Longrightarrow> i < b \<Longrightarrow> I i s \<Longrightarrow> \<exists>s'. scan f s (g i) = Some s' \<and> I (Suc i) s'"
    and "a \<le> b" and "I a s"
  shows "\<exists>s'. scan f s (concat (map g [a..<b])) = Some s' \<and> I b s'"
  using scan_upto [of a b I f g b s] assms by blast

lemma scan_pipelined_trace:
  assumes prime: "\<And>p s. p < d \<Longrightarrow> P p s \<Longrightarrow> \<exists>s'. scan f s (in_events p) = Some s' \<and> P (Suc p) s'"
    and link1: "\<And>s. P d s \<Longrightarrow> L 0 s"
    and iter: "\<And>i s. i < n \<Longrightarrow> L i s \<Longrightarrow> \<exists>s'. scan f s (iter_events n d i) = Some s' \<and> L (Suc i) s'"
    and link2: "\<And>s. L n s \<Longrightarrow> D (n - d) s"
    and drain: "\<And>m s. n - d \<le> m \<Longrightarrow> m < n \<Longrightarrow> D m s
                  \<Longrightarrow> \<exists>s'. scan f s (out_events m) = Some s' \<and> D (Suc m) s'"
    and init: "P 0 s0"
  shows "\<exists>s'. scan f s0 (pipelined_trace n d) = Some s' \<and> D n s'"
proof -
  from prime init obtain s1 where
    1: "scan f s0 (concat (map in_events [0..<d])) = Some s1" and p1: "P d s1"
    using scan_concat_rule [of 0 d P f in_events s0] by auto
  from iter link1 [OF p1] obtain s2 where
    2: "scan f s1 (concat (map (iter_events n d) [0..<n])) = Some s2" and p2: "L n s2"
    using scan_concat_rule [of 0 n L f "iter_events n d" s1] by auto
  from drain link2 [OF p2] obtain s3 where
    3: "scan f s2 (concat (map out_events [n - d..<n])) = Some s3" and p3: "D n s3"
    using scan_concat_rule [of "n - d" n D f out_events s2] by auto
  from 1 2 3 p3 show ?thesis
    by (simp add: pipelined_trace_def scan_append)
qed

lemma exclusive_pipelined_trace:
  assumes "0 < d"
  shows "scan exclusive_step None (pipelined_trace n d) = Some None"
proof -
  let ?I = "\<lambda>(k::nat) r. r = (None :: invocation option)"
  have "\<exists>s'. scan exclusive_step None (pipelined_trace n d) = Some s' \<and> ?I n s'"
    using assms
    by (intro scan_pipelined_trace [of d ?I exclusive_step ?I n ?I])
       (auto simp: in_events_def out_events_def iter_events_def slice_invocation_def)
  then show ?thesis by simp
qed

lemma alternate_pipelined_trace:
  "scan alternate_step None (pipelined_trace n d) = Some None"
proof -
  let ?I = "\<lambda>(k::nat) r. r = (None :: invocation option)"
  have "\<exists>s'. scan alternate_step None (pipelined_trace n d) = Some s' \<and> ?I n s'"
    by (intro scan_pipelined_trace [of d ?I alternate_step ?I n ?I])
       (auto simp: in_events_def out_events_def iter_events_def slice_invocation_def)
  then show ?thesis by simp
qed

lemma loaded_Suc: "insert (In2, p) (insert (In1, p) (loaded p)) = loaded (Suc p)"
  by (auto simp: loaded_def lessThan_Suc)

lemma loaded_mem [simp]: "(In1, k) \<in> loaded p \<longleftrightarrow> k < p" "(In2, k) \<in> loaded p \<longleftrightarrow> k < p"
  by (auto simp: loaded_def)

lemma computed_Suc: "insert (Out, i) (computed i) = computed (Suc i)"
  by (auto simp: computed_def lessThan_Suc)

lemma computed_mem [simp]: "(Out, k) \<in> computed i \<longleftrightarrow> k < i"
  by (auto simp: computed_def)

lemma ready_pipelined_trace:
  assumes "0 < d" "d \<le> n"
  shows "scan ready_step {} (pipelined_trace n d) = Some (loaded n)"
proof -
  let ?P = "\<lambda>p S. S = loaded p"
  let ?L = "\<lambda>i S. S = loaded (min (i + d) n)"
  let ?D = "\<lambda>(m::nat) S. S = loaded n"
  have i: "\<exists>s'. scan ready_step s (iter_events n d i) = Some s' \<and> ?L (Suc i) s'"
    if "i < n" "?L i s" for i s
  proof (cases "i + d < n")
    case True
    then have "min (i + d) n = i + d" "min (Suc i + d) n = Suc (i + d)" by simp_all
    with that assms True show ?thesis
      by (simp add: iter_events_def in_events_def out_events_def slice_invocation_def loaded_Suc)
  next
    case False
    then have "min (i + d) n = n" "min (Suc i + d) n = n" by simp_all
    with that assms False show ?thesis
      by (simp add: iter_events_def in_events_def out_events_def slice_invocation_def)
  qed
  have "\<exists>s'. scan ready_step {} (pipelined_trace n d) = Some s' \<and> ?D n s'"
  proof (rule scan_pipelined_trace [of d ?P ready_step ?L n ?D])
    show "\<exists>s'. scan ready_step s (in_events p) = Some s' \<and> s' = loaded (Suc p)"
      if "s = loaded p" for p s
      using that by (simp add: in_events_def loaded_Suc)
    show "s = loaded (min (0 + d) n)" if "s = loaded d" for s
      using that assms by simp
    show "\<exists>s'. scan ready_step s (iter_events n d i) = Some s' \<and> s' = loaded (min (Suc i + d) n)"
      if "i < n" "s = loaded (min (i + d) n)" for i s
      using i that by simp
    show "s = loaded n" if "s = loaded (min (n + d) n)" for s
      using that by simp
    show "\<exists>s'. scan ready_step s (out_events m) = Some s' \<and> s' = loaded n"
      if "s = loaded n" for m s
      using that by (simp add: out_events_def)
    show "{} = loaded 0" by (simp add: loaded_def)
  qed
  then show ?thesis by simp
qed

lemma ready_serial_trace: "scan ready_step {} (serial_trace n) = Some (loaded n)"
proof -
  let ?I = "\<lambda>i S. S = loaded i"
  have "\<exists>s'. scan ready_step {} (concat (map serial_events [0..<n])) = Some s' \<and> ?I n s'"
  proof (rule scan_concat_rule [of 0 n ?I ready_step serial_events])
    show "\<exists>s'. scan ready_step s (serial_events i) = Some s' \<and> s' = loaded (Suc i)"
      if "s = loaded i" for i s
      using that
      by (simp add: serial_events_def in_events_def out_events_def slice_invocation_def
          loaded_Suc [symmetric])
    show "{} = loaded 0" by (simp add: loaded_def)
  qed simp
  then show ?thesis by (simp add: serial_trace_def)
qed

lemma complete_pipelined_trace:
  assumes "0 < d"
  shows "scan complete_step {} (pipelined_trace n d) = Some (computed n)"
proof -
  let ?P = "\<lambda>(p::nat) S. S = ({} :: slice set)"
  let ?L = "\<lambda>i S. S = computed i"
  let ?D = "\<lambda>(m::nat) S. S = computed n"
  have ni: "computed i - {(Out, i)} = computed i" for i
    by (auto simp: computed_def)
  have "\<exists>s'. scan complete_step {} (pipelined_trace n d) = Some s' \<and> ?D n s'"
  proof (rule scan_pipelined_trace [of d ?P complete_step ?L n ?D])
    show "\<exists>s'. scan complete_step s (in_events p) = Some s' \<and> s' = {}" if "s = {}" for p s
      using that by (simp add: in_events_def)
    show "s = computed 0" if "s = {}" for s
      using that by (simp add: computed_def)
    show "\<exists>s'. scan complete_step s (iter_events n d i) = Some s' \<and> s' = computed (Suc i)"
      if "i < n" "s = computed i" for i s
      using that assms
      by (simp add: iter_events_def in_events_def out_events_def slice_invocation_def ni
          computed_Suc)
    show "s = computed n" if "s = computed n" for s
      using that .
    show "\<exists>s'. scan complete_step s (out_events m) = Some s' \<and> s' = computed n"
      if "m < n" "s = computed n" for m s
      using that by (simp add: out_events_def)
    show "{} = ({} :: slice set)" ..
  qed
  then show ?thesis by simp
qed

subsection \<open>Shape of the issued calls\<close>

lemma start_mem_pipelined_trace:
  assumes "i < n"
  shows "Start (slice_invocation i) \<in> set (pipelined_trace n d)"
proof -
  have "Start (slice_invocation i) \<in> set (iter_events n d i)"
    by (simp add: iter_events_def)
  with assms show ?thesis
    by (auto simp: pipelined_trace_def)
qed

lemma call_mem_serial_trace:
  assumes "i < n"
  shows "Call (slice_invocation i) \<in> set (serial_trace n)"
proof -
  have "Call (slice_invocation i) \<in> set (serial_events i)"
    by (simp add: serial_events_def)
  with assms show ?thesis
    by (auto simp: serial_trace_def)
qed

lemma out_mem_pipelined_trace:
  assumes "0 < d" "d \<le> n" "j < n"
  shows "SyncFromDevice (Out, j) \<in> set (pipelined_trace n d)"
proof (cases "j + d < n")
  case True
  have "SyncFromDevice (Out, j) \<in> set (iter_events n d (j + d))"
    by (simp add: iter_events_def out_events_def)
  with True have "SyncFromDevice (Out, j) \<in> set (concat (map (iter_events n d) [0..<n]))"
    by auto
  then show ?thesis by (simp add: pipelined_trace_def)
next
  case False
  with assms have "n - d \<le> j" by simp
  with assms(3) have "SyncFromDevice (Out, j) \<in> set (concat (map out_events [n - d..<n]))"
    by (auto simp: out_events_def)
  then show ?thesis by (simp add: pipelined_trace_def)
qed

lemma concat_map_Nil: "concat (map (\<lambda>x. []) xs) = []"
  by (induction xs) simp_all

lemma filter_concat_map:
  "filter P (concat (map g xs)) = concat (map (\<lambda>x. filter P (g x)) xs)"
  by (induction xs) simp_all

lemma invocation_events_pipelined_trace:
  "filter is_invocation_event (pipelined_trace n d) =
     concat (map (\<lambda>i. [Start (Invocation (In1, i) (In2, i) (Out, i) size_elems),
                        Wait (Invocation (In1, i) (In2, i) (Out, i) size_elems)]) [0..<n])"
proof -
  have 1: "(\<lambda>k. filter is_invocation_event (in_events k)) = (\<lambda>k. [])"
    by (simp add: fun_eq_iff in_events_def)
  have 2: "(\<lambda>k. filter is_invocation_event (out_events k)) = (\<lambda>k. [])"
    by (simp add: fun_eq_iff out_events_def)
  have 3: "(\<lambda>i. filter is_invocation_event (iter_events n d i)) =
           (\<lambda>i. [Start (Invocation (In1, i) (In2, i) (Out, i) size_elems),
                 Wait (Invocation (In1, i) (In2, i) (Out, i) size_elems)])"
    by (simp add: fun_eq_iff iter_events_def in_events_def out_events_def slice_invocation_def)
  show ?thesis
    by (simp add: pipelined_trace_def filter_concat_map 1 2 3 concat_map_Nil)
qed

lemma in_events_explicit:
  "concat (map in_events ks) = concat (map (\<lambda>k. [SyncToDevice (In1, k), SyncToDevice (In2, k)]) ks)"
proof -
  have "in_events = (\<lambda>k. [SyncToDevice (In1, k), SyncToDevice (In2, k)])"
    by (simp add: fun_eq_iff in_events_def)
  then show ?thesis by simp
qed

lemma pipelined_trace_head:
  assumes "0 < n"
  shows "pipelined_trace n d =
     concat (map in_events [0..<d])
     @ Start (slice_invocation 0)
       # (tl (iter_events n d 0) @ concat (map (iter_events n d) [1..<n])
          @ concat (map out_events [n - d..<n]))"
proof -
  from assms have "[0..<n] = 0 # [1..<n]" by (simp add: upt_conv_Cons)
  then show ?thesis
    by (simp add: pipelined_trace_def iter_events_def)
qed

lemma takeWhile_pipelined_trace:
  assumes "0 < n"
  shows "takeWhile (\<lambda>e. \<not> is_start e) (pipelined_trace n d) = concat (map in_events [0..<d])"
  unfolding pipelined_trace_head [OF assms]
  by (subst takeWhile_append2) (auto simp: in_events_def)

lemma dropWhile_pipelined_trace:
  assumes "0 < n"
  shows "dropWhile (\<lambda>e. \<not> is_start e) (pipelined_trace n d) =
     concat (map (iter_events n d) [0..<n]) @ concat (map out_events [n - d..<n])"
proof -
  from assms have u: "[0..<n] = 0 # [1..<n]" by (simp add: upt_conv_Cons)
  have "dropWhile (\<lambda>e. \<not> is_start e) (pipelined_trace n d) =
     Start (slice_invocation 0)
       # (tl (iter_events n d 0) @ concat (map (iter_events n d) [1..<n])
          @ concat (map out_events [n - d..<n]))"
    unfolding pipelined_trace_head [OF assms]
    by (subst dropWhile_append2) (auto simp: in_events_def)
  also have "\<dots> = concat (map (iter_events n d) [0..<n]) @ concat (map out_events [n - d..<n])"
    unfolding u by (simp add: iter_events_def)
  finally show ?thesis .
qed

lemma no_transfer_in_after_full_prime:
  "filter is_transfer_in (concat (map (iter_events n n) [0..<n]) @ concat (map out_events [0..<n])) = []"
proof -
  have 1: "filter is_transfer_in (iter_events n n i) = []" for i
    by (simp add: iter_events_def out_events_def)
  have 2: "filter is_transfer_in (out_events k) = []" for k
    by (simp add: out_events_def)
  show ?thesis
    by (simp add: filter_concat_map 1 2 concat_map_Nil)
qed

lemma prefetch_in_pipelined_trace:
  assumes "i + d < n"
  shows "\<exists>ps ss. pipelined_trace n d =
            ps @ [Start (slice_invocation i), SyncToDevice (In1, i + d), SyncToDevice (In2, i + d)] @ ss"
proof -
  from assms have i: "i < n" by simp
  then have "[0..<n] = [0..<i] @ i # [Suc i..<n]"
    by (metis le0 upt_add_eq_append upt_conv_Cons le_add_diff_inverse less_imp_le_nat)
  then have "concat (map (iter_events n d) [0..<n]) =
      concat (map (iter_events n d) [0..<i]) @ iter_events n d i
      @ concat (map (iter_events n d) [Suc i..<n])"
    by simp
  moreover from assms have "iter_events n d i =
      [Start (slice_invocation i), SyncToDevice (In1, i + d), SyncToDevice (In2, i + d)]
      @ (if d \<le> i then out_events (i - d) else []) @ [Wait (slice_invocation i)]"
    by (simp add: iter_events_def in_events_def)
  ultimately have "pipelined_trace n d =
      (concat (map in_events [0..<d]) @ concat (map (iter_events n d) [0..<i]))
      @ [Start (slice_invocation i), SyncToDevice (In1, i + d), SyncToDevice (In2, i + d)]
      @ ((if d \<le> i then out_events (i - d) else []) @ [Wait (slice_invocation i)]
         @ concat (map (iter_events n d) [Suc i..<n]) @ concat (map out_events [n - d..<n]))"
    by (simp add: pipelined_trace_def)
  then show ?thesis by blast
qed

lemma drain_last_pipelined_trace:
  assumes "1 \<le> n"
  shows "\<exists>ps. pipelined_trace n 1 =
            ps @ [Wait (slice_invocation (n - 1)), SyncFromDevice (Out, n - 1)]"
proof -
  from assms have n: "n = Suc (n - 1)" by simp
  have "[0..<Suc (n - 1)] = [0..<n - 1] @ [n - 1]" by simp
  with n have u: "[0..<n] = [0..<n - 1] @ [n - 1]" by simp
  have "[n - 1..<Suc (n - 1)] = [n - 1]" by simp
  with n have r: "[n - 1..<n] = [n - 1]" by simp
  have "\<exists>qs. iter_events n (Suc 0) (n - Suc 0) = qs @ [Wait (slice_invocation (n - Suc 0))]"
    by (simp add: iter_events_def)
  then obtain qs where
    q: "iter_events n (Suc 0) (n - Suc 0) = qs @ [Wait (slice_invocation (n - Suc 0))]" ..
  have "pipelined_trace n 1 =
      (concat (map in_events [0..<1]) @ concat (map (iter_events n 1) [0..<n - 1]) @ qs)
      @ [Wait (slice_invocation (n - 1)), SyncFromDevice (Out, n - 1)]"
    unfolding pipelined_trace_def u r by (simp add: q out_events_def)
  then show ?thesis by blast
qed

lemma pipelined_trace_one:
  "pipelined_trace 1 1 =
     [SyncToDevice (In1, 0), SyncToDevice (In2, 0),
      Start (Invocation (In1, 0) (In2, 0) (Out, 0) size_elems),
      Wait (Invocation (In1, 0) (In2, 0) (Out, 0) size_elems),
      SyncFromDevice (Out, 0)]"
  by (simp add: pipelined_trace_def iter_events_def in_events_def out_events_def
      slice_invocation_def)

lemma issued_serial: "fits n st \<Longrightarrow> quiet n st \<Longrightarrow> issued st (run_serial n st) = serial_trace n"
  using run_serial_facts [of n st] by (blast intro: issued_stage)

lemma issued_pipelined:
  "0 < d \<Longrightarrow> d \<le> n \<Longrightarrow> fits n st \<Longrightarrow> quiet n st \<Longrightarrow>
   issued st (run_pipelined n d st) = pipelined_trace n d"
  using run_pipelined_facts [of d n st] by (blast intro: issued_stage)

lemma issued_overlapped:
  "1 \<le> n \<Longrightarrow> fits n st \<Longrightarrow> quiet n st \<Longrightarrow>
   issued st (run_overlapped n st) = pipelined_trace n 1"
  using run_overlapped_facts [of n st] by (blast intro: issued_stage)

lemma fits_mono: "m \<le> n \<Longrightarrow> fits n st \<Longrightarrow> fits m st"
  by (auto simp: fits_def intro: le_trans)

lemma quiet_mono: "m \<le> n \<Longrightarrow> quiet n st \<Longrightarrow> quiet m st"
  by (auto simp: quiet_def)

subsection \<open>A wait that raises\<close>

lemma prime_loop_stage:
  assumes d: "d \<le> n" and sh: "\<forall>b. n \<le> shape st b" and idle: "running st = None"
  shows "\<exists>s1. for_range [0..<d] transfer_in st = Done () s1
            \<and> stage st d 0 0 (concat (map in_events [0..<d])) s1"
proof -
  let ?P = "\<lambda>p s. stage st p 0 0 (concat (map in_events [0..<p])) s"
  have pstep: "\<exists>s'. transfer_in p s = Done () s' \<and> ?P (Suc p) s'" if "p < d" "?P p s" for p s
  proof -
    from that(2) have "shape s = shape st" "running s = None"
      by (simp_all add: stage_def)
    with that(1) d sh have "transfer_in p s = Done () (copy_in p s)"
      by (intro transfer_in_idle) (auto intro: less_le_trans)
    moreover have "?P (Suc p) (copy_in p s)"
      using stage_prime [OF that(2)] by simp
    ultimately show ?thesis by blast
  qed
  have "?P 0 st" using idle by (simp add: stage_start)
  with pstep show ?thesis
    by (intro for_range_rule [of 0 d ?P]) simp_all
qed

lemma main_loop_stage:
  assumes d: "0 < d" "d \<le> n" and sh: "\<forall>b. n \<le> shape st b"
    and s1: "stage st d 0 0 pre s1" and m: "m \<le> n"
    and ok: "\<forall>i<m. faults st (slice_invocation i) \<noteq> FaultRaised"
  shows "\<exists>s2. for_range [0..<m] (pipelined_body n d) s1 = Done () s2
            \<and> stage st (min (m + d) n) m (m - d) (pre @ concat (map (iter_events n d) [0..<m])) s2"
proof -
  let ?L = "\<lambda>i s. stage st (min (i + d) n) i (i - d) (pre @ concat (map (iter_events n d) [0..<i])) s"
  have lstep: "\<exists>s'. pipelined_body n d i s = Done () s' \<and> ?L (Suc i) s'" if "i < m" "?L i s" for i s
  proof -
    from that(1) m have i: "i < n" by simp
    from that(2) have "shape s = shape st" "running s = None" "faults s = faults st"
      by (simp_all add: stage_def)
    with that(1) i d sh ok have "pipelined_body n d i s = Done () (iter_result n d i s)"
      by (simp add: pipelined_body_result raise_or_done_def)
    moreover have "?L (Suc i) (iter_result n d i s)"
      using stage_iter [OF that(2) d(1) i] by simp
    ultimately show ?thesis by blast
  qed
  from s1 d have "?L 0 s1" by (simp add: min_absorb1)
  with lstep show ?thesis
    by (intro for_range_rule [of 0 m ?L]) simp_all
qed

lemma run_pipelined_raise:
  assumes d: "0 < d" "d \<le> n" and f: "fits n st" and k: "k < n"
    and r: "faults st (slice_invocation k) = FaultRaised" and q: "quiet k st"
  shows "\<exists>st'. run_pipelined n d st = Raised DeviceFault st' \<and> running st' = None
           \<and> trace st' = trace st @ concat (map in_events [0..<d])
                @ concat (map (iter_events n d) [0..<k]) @ iter_events n d k"
proof -
  let ?pre = "concat (map in_events [0..<d])"
  from f have sh: "\<forall>b. n \<le> shape st b" and idle: "running st = None"
    by (simp_all add: fits_def)
  from prime_loop_stage [OF d(2) sh idle] obtain s1 where
    1: "for_range [0..<d] transfer_in st = Done () s1" and p1: "stage st d 0 0 ?pre s1"
    by blast
  from k have kn: "k \<le> n" by simp
  from q have ok: "\<forall>i<k. faults st (slice_invocation i) \<noteq> FaultRaised"
    by (simp add: quiet_def)
  from main_loop_stage [OF d sh p1 kn ok] obtain s2 where
    2: "for_range [0..<k] (pipelined_body n d) s1 = Done () s2"
    and p2: "stage st (min (k + d) n) k (k - d) (?pre @ concat (map (iter_events n d) [0..<k])) s2"
    by blast
  from p2 have e: "shape s2 = shape st" "running s2 = None" "faults s2 = faults st"
    "trace s2 = trace st @ ?pre @ concat (map (iter_events n d) [0..<k])"
    by (simp_all add: stage_def)
  with k d sh r have 3: "pipelined_body n d k s2 = Raised DeviceFault (iter_result n d k s2)"
    by (simp add: pipelined_body_result raise_or_done_def)
  from k have "[0..<n] = [0..<k] @ k # [Suc k..<n]"
    by (metis le0 upt_add_eq_append upt_conv_Cons le_add_diff_inverse less_imp_le_nat)
  then have "for_range [0..<n] (pipelined_body n d) s1 = Raised DeviceFault (iter_result n d k s2)"
    by (simp add: for_range_append 2 3)
  with 1 have "run_pipelined n d st = Raised DeviceFault (iter_result n d k s2)"
    by (simp add: run_pipelined_def)
  with e show ?thesis by simp
qed

lemma starts_up_to:
  assumes "Start (slice_invocation i) \<in> set (concat (map in_events [0..<d])
             @ concat (map (iter_events n d) [0..<k]) @ iter_events n d k)"
  shows "i \<le> k"
  using assms
  by (auto simp: in_events_def iter_events_def out_events_def slice_invocation_def
      split: if_splits)

lemma iter_events_last: "\<exists>qs. iter_events n d k = qs @ [Wait (slice_invocation k)]"
  by (simp add: iter_events_def)

lemma faulty_fits: "fits 10 faulty_runtime"
  by (simp add: fits_def faulty_runtime_def notebook_runtime_def)

lemma faulty_quiet: "quiet 10 faulty_runtime"
  by (simp add: quiet_def faulty_runtime_def notebook_runtime_def)

lemma raising_fits: "fits 10 raising_runtime"
  by (simp add: fits_def raising_runtime_def notebook_runtime_def)

subsection \<open>No call raises InvalidArgument\<close>








subsection \<open>The calls of a run on three slices, written out\<close>

lemma pipelined_trace_three:
  "pipelined_trace 3 1 =
     [SyncToDevice (In1, 0), SyncToDevice (In2, 0),
      Start (slice_invocation 0), SyncToDevice (In1, 1), SyncToDevice (In2, 1),
      Wait (slice_invocation 0),
      Start (slice_invocation 1), SyncToDevice (In1, 2), SyncToDevice (In2, 2),
      SyncFromDevice (Out, 0), Wait (slice_invocation 1),
      Start (slice_invocation 2), SyncFromDevice (Out, 1), Wait (slice_invocation 2),
      SyncFromDevice (Out, 2)]"
proof -
  have "[0..<3] = [0, 1, 2::nat]" "[2..<3] = [2::nat]" by (simp_all add: upt_rec)
  then show ?thesis
    by (simp add: pipelined_trace_def iter_events_def in_events_def out_events_def)
qed

lemma run_overlapped_three:
  assumes "fits 3 st" "quiet 3 st"
  shows "issued st (run_overlapped 3 st) =
     [SyncToDevice (In1, 0), SyncToDevice (In2, 0),
      Start (slice_invocation 0), SyncToDevice (In1, 1), SyncToDevice (In2, 1),
      Wait (slice_invocation 0),
      Start (slice_invocation 1), SyncToDevice (In1, 2), SyncToDevice (In2, 2),
      SyncFromDevice (Out, 0), Wait (slice_invocation 1),
      Start (slice_invocation 2), SyncFromDevice (Out, 1), Wait (slice_invocation 2),
      SyncFromDevice (Out, 2)]"
  using issued_overlapped [of 3 st] assms by (simp only: pipelined_trace_three)

subsection \<open>Buffers shorter than the slice count\<close>













section \<open>The claims\<close>

text \<open>
  C6. The serial loop of cell 27, for any slice count \<open>n\<close>, runs \<open>n\<close> iterations with
  increasing index; each iteration transfers slice \<open>i\<close> of both inputs to the device,
  invokes the kernel synchronously on slice \<open>i\<close>, and transfers slice \<open>i\<close> of the
  output back. It returns normally after the last iteration, with no invocation left
  in flight.
\<close>

theorem run_serial_order:
  assumes "fits n st" "quiet n st"
  shows "outcome (run_serial n st) = None
       \<and> issued st (run_serial n st) =
           concat (map (\<lambda>i. [SyncToDevice (In1, i), SyncToDevice (In2, i),
                              Call (Invocation (In1, i) (In2, i) (Out, i) size_elems),
                              SyncFromDevice (Out, i)]) [0..<n])
       \<and> length (issued st (run_serial n st)) = 4 * n
       \<and> running (final (run_serial n st)) = None"
proof -
  from run_serial_facts [OF assms] have o: "outcome (run_serial n st) = None"
    and s: "stage st n n n (serial_trace n) (final (run_serial n st))" by simp_all
  from s have "issued st (run_serial n st) = serial_trace n" by (rule issued_stage)
  moreover from s have "running (final (run_serial n st)) = None" by (simp add: stage_def)
  ultimately show ?thesis
    using o serial_trace_explicit [of n] length_serial_trace [of n] by simp
qed

theorem run_serial_order_witness:
  "fits 10 notebook_runtime \<and> quiet 10 notebook_runtime
   \<and> outcome (cell27 notebook_runtime) = None
   \<and> length (issued notebook_runtime (cell27 notebook_runtime)) = 4 * 10
   \<and> running (final (cell27 notebook_runtime)) = None"
  unfolding cell27_def
  using run_serial_order [OF notebook_fits notebook_quiet] notebook_fits notebook_quiet
  by blast

text \<open>
  C1. Serial and overlapped execution agree, and both compute the reference sum.
  For buffers of at least \<open>n\<close> slices, any pipeline depth \<open>0 < d \<le> n\<close>, any
  interleaving of the device with the host (the field \<open>early\<close> of the state is
  arbitrary) and no device fault, the serial loop of cell 27, the overlapped loop of
  cell 33 and the depth-\<open>d\<close> schedule all return normally and leave the same host
  buffers; every element of every output slice \<open>i < n\<close> is the sum of the two input
  elements.
\<close>

theorem serial_overlapped_equivalence:
  assumes "0 < d" "d \<le> n" "fits n st" "fault_free n st"
  shows "outcome (run_serial n st) = None
       \<and> outcome (run_overlapped n st) = None
       \<and> outcome (run_pipelined n d st) = None
       \<and> host (final (run_overlapped n st)) = host (final (run_serial n st))
       \<and> host (final (run_pipelined n d st)) = host (final (run_serial n st))
       \<and> (\<forall>i<n. \<forall>j < size_elems.
             host (final (run_serial n st)) (Out, i) j = host st (In1, i) j + host st (In2, i) j)"
proof -
  from assms(4) have q: "quiet n st" by (rule fault_free_quiet)
  from assms(1,2) have n: "1 \<le> n" by simp
  note s = run_serial_facts [OF assms(3) q]
  note o = run_overlapped_facts [OF n assms(3) q]
  note p = run_pipelined_facts [OF assms(1,2,3) q]
  have "host (final (run_overlapped n st)) = host (final (run_serial n st))"
    using o s by (blast intro: stage_host_eq)
  moreover have "host (final (run_pipelined n d st)) = host (final (run_serial n st))"
    using p s by (blast intro: stage_host_eq)
  moreover have "host (final (run_serial n st)) (Out, i) j = host st (In1, i) j + host st (In2, i) j"
    if "i < n" "j < size_elems" for i j
    using s that assms(4) by (intro stage_host_out [of st n n n "serial_trace n"]) (simp_all add: fault_free_def)
  ultimately show ?thesis using s o p by simp
qed

theorem serial_overlapped_equivalence_witness:
  "fits 10 notebook_runtime \<and> fault_free 10 notebook_runtime
   \<and> host (final (cell27 notebook_runtime)) (Out, 9) 5 = 1998
   \<and> host (final (cell33 notebook_runtime)) (Out, 9) 5 = 1998
   \<and> host (final (run_pipelined 10 3 notebook_runtime)) (Out, 9) 5 = 1998"
proof -
  have d: "(0::nat) < 3" "(3::nat) \<le> 10" by simp_all
  note t = serial_overlapped_equivalence [OF d notebook_fits notebook_fault_free]
  have j: "(5::nat) < size_elems" by (simp add: size_elems_def)
  from t j have "host (final (run_serial 10 notebook_runtime)) (Out, 9) 5
      = host notebook_runtime (In1, 9) 5 + host notebook_runtime (In2, 9) 5" by simp
  then have "host (final (run_serial 10 notebook_runtime)) (Out, 9) 5 = 1998"
    by (simp add: notebook_runtime_def)
  with t show ?thesis
    using notebook_fits notebook_fault_free by (simp add: cell27_def cell33_def)
qed

text \<open>
  C10. With every input element below 1000, as \<^verbatim>\<open>randint(1000)\<close> draws them, the
  wrapping 32-bit addition of the kernel is the exact sum: after cell 33 every output
  element, read as a natural number, is the sum of the two input elements, at most
  1998.
\<close>

theorem notebook_inputs_do_not_wrap:
  assumes "fits 10 st" "fault_free 10 st"
    and "\<forall>i<10. \<forall>j < size_elems. unat (host st (In1, i) j) < 1000 \<and> unat (host st (In2, i) j) < 1000"
  shows "outcome (cell33 st) = None
       \<and> (\<forall>i<10. \<forall>j < size_elems.
             unat (host (final (cell33 st)) (Out, i) j)
               = unat (host st (In1, i) j) + unat (host st (In2, i) j)
           \<and> unat (host (final (cell33 st)) (Out, i) j) \<le> 1998
           \<and> host (final (cell33 st)) (Out, i) j
               = vadd (host st (In1, i)) (host st (In2, i)) (host st (Out, i)) size_elems j)"
proof -
  from assms(2) have q: "quiet 10 st" by (rule fault_free_quiet)
  have o: "outcome (run_overlapped 10 st) = None"
    and s: "stage st 10 10 10 (pipelined_trace 10 1) (final (run_overlapped 10 st))"
    using run_overlapped_facts [of 10 st] assms(1) q by simp_all
  have "unat (host (final (run_overlapped 10 st)) (Out, i) j)
               = unat (host st (In1, i) j) + unat (host st (In2, i) j)
           \<and> unat (host (final (run_overlapped 10 st)) (Out, i) j) \<le> 1998
           \<and> host (final (run_overlapped 10 st)) (Out, i) j
               = vadd (host st (In1, i)) (host st (In2, i)) (host st (Out, i)) size_elems j"
    if "i < 10" "j < size_elems" for i j
  proof -
    from that assms(2) have e: "host (final (run_overlapped 10 st)) (Out, i) j
        = host st (In1, i) j + host st (In2, i) j"
      by (intro stage_host_out [OF s]) (simp_all add: fault_free_def)
    from that assms(3) have b: "unat (host st (In1, i) j) < 1000" "unat (host st (In2, i) j) < 1000"
      by simp_all
    from b have "unat (host st (In1, i) j + host st (In2, i) j)
        = unat (host st (In1, i) j) + unat (host st (In2, i) j)" by (rule unat_add_small)
    with e b that(2) show ?thesis by (simp add: vadd_def)
  qed
  with o show ?thesis unfolding cell33_def by blast
qed

theorem notebook_inputs_do_not_wrap_witness:
  "fits 10 notebook_runtime \<and> fault_free 10 notebook_runtime
   \<and> unat (host (final (cell33 notebook_runtime)) (Out, 0) 0) = 999 + 999"
proof -
  have r: "\<forall>i<10. \<forall>j < size_elems. unat (host notebook_runtime (In1, i) j) < 1000
             \<and> unat (host notebook_runtime (In2, i) j) < 1000"
    by (simp add: notebook_runtime_def)
  note t = notebook_inputs_do_not_wrap [OF notebook_fits notebook_fault_free r]
  have j: "(0::nat) < size_elems" by (simp add: size_elems_def)
  have i: "(0::nat) < 10" by simp
  from t i j have "unat (host (final (cell33 notebook_runtime)) (Out, 0) 0)
      = unat (host notebook_runtime (In1, 0) 0) + unat (host notebook_runtime (In2, 0) 0)" by blast
  then show ?thesis
    using notebook_fits notebook_fault_free by (simp add: notebook_runtime_def)
qed

text \<open>
  C2. Exclusive ownership of slices. For every slice count \<open>n \<ge> 1\<close> and pipeline
  depth \<open>0 < d \<le> n\<close>, the calls issued by the depth-\<open>d\<close> schedule, and by the loop
  of cell 33, pass the ownership monitor: every transfer issued between the start of
  an invocation and the wait on its handle targets a slice that is not bound to that
  invocation, and no invocation starts while another is in flight.
\<close>

theorem exclusive_slice_ownership:
  assumes "0 < d" "d \<le> n" "fits n st" "quiet n st"
  shows "outcome (run_pipelined n d st) = None
       \<and> scan exclusive_step None (issued st (run_pipelined n d st)) = Some None
       \<and> outcome (run_overlapped n st) = None
       \<and> scan exclusive_step None (issued st (run_overlapped n st)) = Some None"
proof -
  from assms(1,2) have n: "1 \<le> n" by simp
  have "scan exclusive_step None (pipelined_trace n d) = Some None"
    using assms(1) by (rule exclusive_pipelined_trace)
  moreover have "scan exclusive_step None (pipelined_trace n 1) = Some None"
    by (rule exclusive_pipelined_trace) simp
  ultimately show ?thesis
    using run_pipelined_facts [OF assms] run_overlapped_facts [OF n assms(3,4)]
      issued_pipelined [OF assms] issued_overlapped [OF n assms(3,4)]
    by simp
qed

theorem exclusive_slice_ownership_witness:
  "fits 10 notebook_runtime \<and> quiet 10 notebook_runtime
   \<and> scan exclusive_step None (issued notebook_runtime (run_pipelined 10 2 notebook_runtime))
       = Some None
   \<and> scan exclusive_step None (issued notebook_runtime (cell33 notebook_runtime)) = Some None"
proof -
  have d: "(0::nat) < 2" "(2::nat) \<le> 10" by simp_all
  from exclusive_slice_ownership [OF d notebook_fits notebook_quiet]
  show ?thesis
    unfolding cell33_def using notebook_fits notebook_quiet by blast
qed

text \<open>
  C3. Single outstanding invocation. In the overlapped loop of cell 33 (depth 1), for
  every \<open>n \<ge> 1\<close>, the starts and waits among the issued calls are exactly
  start(0), wait(0), start(1), wait(1), ..., start(n-1), wait(n-1); each start finds
  the unit idle and each wait is on the handle of the start before it.
\<close>

theorem single_outstanding_invocation:
  assumes "1 \<le> n" "fits n st" "quiet n st"
  shows "outcome (run_overlapped n st) = None
       \<and> filter is_invocation_event (issued st (run_overlapped n st)) =
           concat (map (\<lambda>i. [Start (Invocation (In1, i) (In2, i) (Out, i) size_elems),
                              Wait (Invocation (In1, i) (In2, i) (Out, i) size_elems)]) [0..<n])
       \<and> scan alternate_step None (issued st (run_overlapped n st)) = Some None"
  using run_overlapped_facts [OF assms] issued_overlapped [OF assms]
    invocation_events_pipelined_trace [of n 1] alternate_pipelined_trace [of n 1]
  by simp

theorem single_outstanding_invocation_witness:
  "fits 10 notebook_runtime \<and> quiet 10 notebook_runtime
   \<and> outcome (cell33 notebook_runtime) = None
   \<and> scan alternate_step None (issued notebook_runtime (cell33 notebook_runtime)) = Some None"
proof -
  have n: "(1::nat) \<le> 10" by simp
  from single_outstanding_invocation [OF n notebook_fits notebook_quiet]
  show ?thesis
    unfolding cell33_def using notebook_fits notebook_quiet by blast
qed

text \<open>
  C4. Inputs are on the device before they are read. In the serial loop, the
  overlapped loop of cell 33 and the depth-\<open>d\<close> schedule, every invocation is issued
  after the (blocking) transfers to the device of both slices it reads, and every
  slice \<open>i < n\<close> is invoked. In the depth-\<open>d\<close> schedule the calls before the first
  start are exactly the transfers of slices \<open>0..d-1\<close>, and the transfer of slice
  \<open>i + d\<close> follows start(i) directly, in iteration \<open>i\<close>.
\<close>

theorem inputs_transferred_before_use:
  assumes "0 < d" "d \<le> n" "fits n st" "quiet n st"
  shows "scan ready_step {} (issued st (run_serial n st)) \<noteq> None
       \<and> (\<forall>i<n. Call (slice_invocation i) \<in> set (issued st (run_serial n st)))
       \<and> scan ready_step {} (issued st (run_overlapped n st)) \<noteq> None
       \<and> (\<forall>i<n. Start (slice_invocation i) \<in> set (issued st (run_overlapped n st)))
       \<and> scan ready_step {} (issued st (run_pipelined n d st)) \<noteq> None
       \<and> (\<forall>i<n. Start (slice_invocation i) \<in> set (issued st (run_pipelined n d st)))
       \<and> takeWhile (\<lambda>e. \<not> is_start e) (issued st (run_pipelined n d st)) =
           concat (map (\<lambda>k. [SyncToDevice (In1, k), SyncToDevice (In2, k)]) [0..<d])
       \<and> (\<forall>i. i + d < n \<longrightarrow>
            (\<exists>ps ss. issued st (run_pipelined n d st) =
               ps @ [Start (slice_invocation i),
                     SyncToDevice (In1, i + d), SyncToDevice (In2, i + d)] @ ss))"
proof -
  from assms(1,2) have n: "1 \<le> n" by simp
  have one: "(0::nat) < 1" by simp
  note s = issued_serial [OF assms(3,4)]
  note o = issued_overlapped [OF n assms(3,4)]
  note p = issued_pipelined [OF assms]
  have "scan ready_step {} (serial_trace n) \<noteq> None"
    by (simp add: ready_serial_trace)
  moreover have "scan ready_step {} (pipelined_trace n 1) \<noteq> None"
    using ready_pipelined_trace [OF one n] by simp
  moreover have "scan ready_step {} (pipelined_trace n d) \<noteq> None"
    using ready_pipelined_trace [OF assms(1,2)] by simp
  moreover have "takeWhile (\<lambda>e. \<not> is_start e) (pipelined_trace n d) =
           concat (map (\<lambda>k. [SyncToDevice (In1, k), SyncToDevice (In2, k)]) [0..<d])"
    using n by (simp add: takeWhile_pipelined_trace in_events_explicit)
  ultimately show ?thesis
    unfolding s o p
    using call_mem_serial_trace [of _ n] start_mem_pipelined_trace [of _ n]
      prefetch_in_pipelined_trace [of _ d n]
    by blast
qed

theorem inputs_transferred_before_use_witness:
  "fits 10 notebook_runtime \<and> quiet 10 notebook_runtime
   \<and> scan ready_step {} (issued notebook_runtime (cell27 notebook_runtime)) \<noteq> None
   \<and> scan ready_step {} (issued notebook_runtime (cell33 notebook_runtime)) \<noteq> None
   \<and> scan ready_step {} (issued notebook_runtime (run_pipelined 10 2 notebook_runtime)) \<noteq> None
   \<and> Start (slice_invocation 9) \<in> set (issued notebook_runtime (cell33 notebook_runtime))"
proof -
  have d: "(0::nat) < 2" "(2::nat) \<le> 10" by simp_all
  have i: "(9::nat) < 10" by simp
  from inputs_transferred_before_use [OF d notebook_fits notebook_quiet] i
  show ?thesis
    unfolding cell27_def cell33_def using notebook_fits notebook_quiet by blast
qed

text \<open>
  C5. Outputs are transferred back only after their invocation has been waited on.
  In the overlapped loop of cell 33 every transfer from the device targets an output
  slice whose handle has been waited on, every output slice \<open>j < n\<close> is transferred
  back, and the last two calls are the wait on the last handle followed by the
  transfer of the last output slice.
\<close>

theorem outputs_transferred_after_wait:
  assumes "1 \<le> n" "fits n st" "quiet n st"
  shows "outcome (run_overlapped n st) = None
       \<and> scan complete_step {} (issued st (run_overlapped n st)) \<noteq> None
       \<and> (\<forall>j<n. SyncFromDevice (Out, j) \<in> set (issued st (run_overlapped n st)))
       \<and> (\<exists>ps. issued st (run_overlapped n st) =
             ps @ [Wait (slice_invocation (n - 1)), SyncFromDevice (Out, n - 1)])"
proof -
  have one: "(0::nat) < 1" by simp
  have "scan complete_step {} (pipelined_trace n 1) \<noteq> None"
    using complete_pipelined_trace [OF one, of n] by simp
  then show ?thesis
    unfolding issued_overlapped [OF assms]
    using run_overlapped_facts [OF assms] out_mem_pipelined_trace [OF one assms(1)]
      drain_last_pipelined_trace [OF assms(1)]
    by blast
qed

theorem outputs_transferred_after_wait_witness:
  "fits 10 notebook_runtime \<and> quiet 10 notebook_runtime
   \<and> scan complete_step {} (issued notebook_runtime (cell33 notebook_runtime)) \<noteq> None
   \<and> SyncFromDevice (Out, 9) \<in> set (issued notebook_runtime (cell33 notebook_runtime))"
proof -
  have n: "(1::nat) \<le> 10" by simp
  have j: "(9::nat) < 10" by simp
  from outputs_transferred_after_wait [OF n notebook_fits notebook_quiet] j
  show ?thesis
    unfolding cell33_def using notebook_fits notebook_quiet by blast
qed

text \<open>
  C9. Boundaries. With one slice the overlapped loop issues exactly: transfer in of
  slice 0 of both inputs, start, wait, transfer out of slice 0; nothing lies between
  the start and the wait. With depth equal to the slice count, the calls before the
  first start are the transfers in of all \<open>n\<close> input slices, and no transfer in
  follows.
\<close>

theorem pipeline_boundaries:
  assumes "1 \<le> n" "fits n st" "quiet n st"
  shows "issued st (run_overlapped 1 st) =
           [SyncToDevice (In1, 0), SyncToDevice (In2, 0),
            Start (Invocation (In1, 0) (In2, 0) (Out, 0) size_elems),
            Wait (Invocation (In1, 0) (In2, 0) (Out, 0) size_elems),
            SyncFromDevice (Out, 0)]
       \<and> issued st (run_pipelined 1 1 st) = issued st (run_overlapped 1 st)
       \<and> outcome (run_overlapped 1 st) = None
       \<and> outcome (run_pipelined n n st) = None
       \<and> takeWhile (\<lambda>e. \<not> is_start e) (issued st (run_pipelined n n st)) =
           concat (map (\<lambda>k. [SyncToDevice (In1, k), SyncToDevice (In2, k)]) [0..<n])
       \<and> filter is_transfer_in (dropWhile (\<lambda>e. \<not> is_start e) (issued st (run_pipelined n n st)))
           = []"
proof -
  have one: "(1::nat) \<le> 1" "(0::nat) < 1" by simp_all
  from assms have f1: "fits 1 st" and q1: "quiet 1 st"
    by (blast intro: fits_mono quiet_mono)+
  from assms(1) have n: "0 < n" "n \<le> n" by simp_all
  note a = issued_overlapped [OF one(1) f1 q1]
  note b = issued_pipelined [OF one(2) one(1) f1 q1]
  note c = issued_pipelined [OF n assms(2,3)]
  have "takeWhile (\<lambda>e. \<not> is_start e) (pipelined_trace n n) =
           concat (map (\<lambda>k. [SyncToDevice (In1, k), SyncToDevice (In2, k)]) [0..<n])"
    using n by (simp add: takeWhile_pipelined_trace in_events_explicit)
  moreover have "filter is_transfer_in (dropWhile (\<lambda>e. \<not> is_start e) (pipelined_trace n n)) = []"
    using no_transfer_in_after_full_prime [of n] by (simp add: dropWhile_pipelined_trace [OF n(1)])
  ultimately show ?thesis
    unfolding a b c
    using run_overlapped_facts [OF one(1) f1 q1] run_pipelined_facts [OF n assms(2,3)]
      pipelined_trace_one
    by simp
qed

theorem pipeline_boundaries_witness:
  "fits 10 notebook_runtime \<and> quiet 10 notebook_runtime
   \<and> length (issued notebook_runtime (run_overlapped 1 notebook_runtime)) = 5
   \<and> outcome (run_pipelined 10 10 notebook_runtime) = None
   \<and> filter is_transfer_in
        (dropWhile (\<lambda>e. \<not> is_start e) (issued notebook_runtime (run_pipelined 10 10 notebook_runtime)))
       = []"
proof -
  have n: "(1::nat) \<le> 10" by simp
  note t = pipeline_boundaries [OF n notebook_fits notebook_quiet]
  from t have "length (issued notebook_runtime (run_overlapped 1 notebook_runtime)) = 5"
    by simp
  with t show ?thesis
    using notebook_fits notebook_quiet by blast
qed

text \<open>
  C7 as stated fails on the notebook: the cell discards the value of
  \<^verbatim>\<open>handle.wait()\<close> and has no exception handler. When the device reports a fault on
  slice 0 in the result of the wait, cell 33 returns no error and goes on to start
  slice 1.
\<close>

theorem returned_fault_ignored_counterexample:
  "faults faulty_runtime (slice_invocation 0) = FaultReturned
   \<and> outcome (cell33 faulty_runtime) = None
   \<and> Start (slice_invocation 1) \<in> set (issued faulty_runtime (cell33 faulty_runtime))"
proof -
  have n: "(1::nat) \<le> 10" by simp
  have "Start (slice_invocation 1) \<in> set (pipelined_trace 10 1)"
    by (rule start_mem_pipelined_trace) simp
  then show ?thesis
    using run_overlapped_facts [OF n faulty_fits faulty_quiet]
      issued_overlapped [OF n faulty_fits faulty_quiet]
    by (simp add: cell33_def faulty_runtime_def)
qed

text \<open>
  C7, amended. The overlapped loop of cell 33 stops at a fault only when the wait
  raises. If the wait on slice \<open>k\<close> raises (and no earlier one does), the loop ends
  with that exception, as the runtime raised it, with no slice or phase added: the
  wait on slice \<open>k\<close> is the last call issued (so no transfer follows it), slice
  \<open>k\<close> was started, no slice beyond \<open>k\<close> is started, and nothing is left in
  flight. If no wait raises, whatever the waits return, the loop returns no error and
  starts every slice.
\<close>

theorem raised_fault_stops_loop:
  assumes "fits n st"
  shows "(k < n \<and> faults st (slice_invocation k) = FaultRaised \<and> quiet k st \<longrightarrow>
            outcome (run_overlapped n st) = Some DeviceFault
          \<and> (\<exists>ps. issued st (run_overlapped n st) = ps @ [Wait (slice_invocation k)])
          \<and> Start (slice_invocation k) \<in> set (issued st (run_overlapped n st))
          \<and> (\<forall>i. k < i \<longrightarrow> Start (slice_invocation i) \<notin> set (issued st (run_overlapped n st)))
          \<and> running (final (run_overlapped n st)) = None)
       \<and> (1 \<le> n \<and> quiet n st \<longrightarrow>
            outcome (run_overlapped n st) = None
          \<and> (\<forall>i<n. Start (slice_invocation i) \<in> set (issued st (run_overlapped n st))))"
proof (intro conjI impI)
  assume a: "k < n \<and> faults st (slice_invocation k) = FaultRaised \<and> quiet k st"
  then have n: "1 \<le> n" by simp
  have one: "(0::nat) < 1" by simp
  let ?evs = "concat (map in_events [0..<1]) @ concat (map (iter_events n 1) [0..<k])
                @ iter_events n 1 k"
  from run_pipelined_raise [OF one n assms, of k] a obtain st' where
    r: "run_pipelined n 1 st = Raised DeviceFault st'" and i: "running st' = None"
    and t: "trace st' = trace st @ ?evs"
    by blast
  from r n have o: "run_overlapped n st = Raised DeviceFault st'"
    by (simp add: run_overlapped_depth_one)
  with t have e: "issued st (run_overlapped n st) = ?evs"
    by (simp add: issued_def)
  show "outcome (run_overlapped n st) = Some DeviceFault" using o by simp
  show "running (final (run_overlapped n st)) = None" using o i by simp
  show "\<exists>ps. issued st (run_overlapped n st) = ps @ [Wait (slice_invocation k)]"
  proof -
    from iter_events_last [of n 1 k] obtain qs where
      "iter_events n 1 k = qs @ [Wait (slice_invocation k)]" ..
    then have "?evs = (concat (map in_events [0..<1]) @ concat (map (iter_events n 1) [0..<k]) @ qs)
        @ [Wait (slice_invocation k)]" by simp
    with e show ?thesis by metis
  qed
  show "Start (slice_invocation k) \<in> set (issued st (run_overlapped n st))"
    unfolding e by (simp add: iter_events_def)
  show "\<forall>i. k < i \<longrightarrow> Start (slice_invocation i) \<notin> set (issued st (run_overlapped n st))"
    unfolding e using starts_up_to [of _ 1 n k] by (metis not_less)
next
  assume b: "1 \<le> n \<and> quiet n st"
  then show "outcome (run_overlapped n st) = None"
    using run_overlapped_facts [of n st] assms by simp
  from b show "\<forall>i<n. Start (slice_invocation i) \<in> set (issued st (run_overlapped n st))"
    using issued_overlapped [of n st] assms start_mem_pipelined_trace [of _ n 1] by simp
qed

theorem raised_fault_stops_loop_witness:
  "faults raising_runtime (slice_invocation 3) = FaultRaised \<and> quiet 3 raising_runtime
   \<and> outcome (cell33 raising_runtime) = Some DeviceFault
   \<and> Start (slice_invocation 4) \<notin> set (issued raising_runtime (cell33 raising_runtime))
   \<and> running (final (cell33 raising_runtime)) = None
   \<and> quiet 10 notebook_runtime \<and> outcome (cell33 notebook_runtime) = None"
proof -
  have f: "faults raising_runtime (slice_invocation 3) = FaultRaised"
    by (simp add: raising_runtime_def)
  have q: "quiet 3 raising_runtime"
    by (simp add: quiet_def raising_runtime_def notebook_runtime_def slice_invocation_def)
  have k: "(3::nat) < 10" "(3::nat) < 4" "(1::nat) \<le> 10" by simp_all
  note t = raised_fault_stops_loop [OF raising_fits, of 3] raised_fault_stops_loop [OF notebook_fits, of 3]
  from t f q k notebook_quiet show ?thesis
    unfolding cell33_def by blast
qed




end
